theory Spec2Isabelle
  imports Complex_Main "HOL-Library.Char_ord" "HOL-Library.List_Lexorder"
begin

section \<open>JavaScript numbers\<close>

text \<open>
  The scoring engine computes on JavaScript numbers. A number is either finite or one of the
  three special values \<open>NaN\<close>, \<open>Infinity\<close>, \<open>-Infinity\<close>; a metric that the stats provider
  did not deliver is \<open>null\<close> (or \<open>undefined\<close>, which every test of the source treats like
  \<open>null\<close>). Finite numbers are modelled as exact reals: the binary rounding of a double and
  the sign of zero are not represented. All branching on special values is kept.
\<close>

datatype jsnum = Fin real | PInf | NInf | NaN

datatype jsval = Null | Num jsnum

fun isFinite :: "jsval \<Rightarrow> bool" where
  "isFinite (Num (Fin r)) = True"
| "isFinite v = False"

fun jsub :: "jsnum \<Rightarrow> jsnum \<Rightarrow> jsnum" where
  "jsub (Fin a) (Fin b) = Fin (a - b)"
| "jsub NaN y = NaN"
| "jsub x NaN = NaN"
| "jsub PInf PInf = NaN"
| "jsub NInf NInf = NaN"
| "jsub PInf y = PInf"
| "jsub NInf y = NInf"
| "jsub (Fin a) PInf = NInf"
| "jsub (Fin a) NInf = PInf"

fun jdiv :: "jsnum \<Rightarrow> jsnum \<Rightarrow> jsnum" where
  "jdiv (Fin a) (Fin b) =
     (if b \<noteq> 0 then Fin (a / b)
      else if a = 0 then NaN else if 0 < a then PInf else NInf)"
| "jdiv NaN y = NaN"
| "jdiv x NaN = NaN"
| "jdiv (Fin a) y = Fin 0"
| "jdiv PInf (Fin b) = (if 0 \<le> b then PInf else NInf)"
| "jdiv NInf (Fin b) = (if 0 \<le> b then NInf else PInf)"
| "jdiv x y = NaN"

fun jmul :: "jsnum \<Rightarrow> jsnum \<Rightarrow> jsnum" where
  "jmul (Fin a) (Fin b) = Fin (a * b)"
| "jmul NaN y = NaN"
| "jmul x NaN = NaN"
| "jmul (Fin a) PInf = (if a = 0 then NaN else if 0 < a then PInf else NInf)"
| "jmul (Fin a) NInf = (if a = 0 then NaN else if 0 < a then NInf else PInf)"
| "jmul PInf (Fin b) = (if b = 0 then NaN else if 0 < b then PInf else NInf)"
| "jmul NInf (Fin b) = (if b = 0 then NaN else if 0 < b then NInf else PInf)"
| "jmul PInf PInf = PInf"
| "jmul NInf NInf = PInf"
| "jmul PInf NInf = NInf"
| "jmul NInf PInf = NInf"

text \<open>\<open>Math.max\<close> and \<open>Math.min\<close>: \<open>NaN\<close> if either argument is \<open>NaN\<close>.\<close>

fun jmax :: "jsnum \<Rightarrow> jsnum \<Rightarrow> jsnum" where
  "jmax (Fin a) (Fin b) = Fin (max a b)"
| "jmax NaN y = NaN"
| "jmax x NaN = NaN"
| "jmax PInf y = PInf"
| "jmax x PInf = PInf"
| "jmax NInf y = y"
| "jmax x NInf = x"

fun jmin :: "jsnum \<Rightarrow> jsnum \<Rightarrow> jsnum" where
  "jmin (Fin a) (Fin b) = Fin (min a b)"
| "jmin NaN y = NaN"
| "jmin x NaN = NaN"
| "jmin NInf y = NInf"
| "jmin x NInf = NInf"
| "jmin PInf y = y"
| "jmin x PInf = x"

text \<open>The comparison \<open>x >= y\<close> of two numbers: false whenever a \<open>NaN\<close> is involved.\<close>

fun jge :: "jsnum \<Rightarrow> jsnum \<Rightarrow> bool" where
  "jge (Fin a) (Fin b) = (b \<le> a)"
| "jge NaN y = False"
| "jge x NaN = False"
| "jge PInf y = True"
| "jge x NInf = True"
| "jge x y = False"

text \<open>\<open>Math.round\<close> rounds to the nearest integer, a half towards plus infinity.\<close>

definition jsround :: "real \<Rightarrow> int" where
  "jsround x = \<lfloor>x + 1 / 2\<rfloor>"

section \<open>Scoring helpers\<close>

definition OPS_BASELINE :: real where
  "OPS_BASELINE = 0.72"

text \<open>\<open>function clamp(n, lo, hi) { return Math.min(hi, Math.max(lo, n)); }\<close>\<close>

definition clamp :: "jsnum \<Rightarrow> jsnum \<Rightarrow> jsnum \<Rightarrow> jsnum" where
  "clamp n lo hi = jmin hi (jmax lo n)"

text \<open>The same function where all three arguments are known to be finite.\<close>

definition clampR :: "real \<Rightarrow> real \<Rightarrow> real \<Rightarrow> real" where
  "clampR n lo hi = min hi (max lo n)"

text \<open>
  \<open>normOPS\<close> tests \<open>ops == null\<close> only; any number, finite or not, goes through the
  arithmetic.
\<close>

definition normOPS :: "jsval \<Rightarrow> jsnum" where
  "normOPS ops =
     (case ops of
        Null \<Rightarrow> Fin 0.5
      | Num x \<Rightarrow> clamp (jdiv (jsub x (Fin 0.40)) (jsub (Fin 1.050) (Fin 0.40))) (Fin 0) (Fin 1))"

text \<open>
  The other normalizers test \<open>Number.isFinite\<close> first, so their arithmetic only ever
  sees finite numbers.
\<close>

definition normH9 :: "jsval \<Rightarrow> real" where
  "normH9 h9 =
     (case h9 of
        Num (Fin x) \<Rightarrow> clampR ((x - 6.0) / (12.0 - 6.0)) 0 1
      | _ \<Rightarrow> 0.5)"

definition normPA :: "jsval \<Rightarrow> real" where
  "normPA pa =
     (case pa of
        Num (Fin x) \<Rightarrow> clampR ((x - 3.8) / (4.8 - 3.8)) 0 1
      | _ \<Rightarrow> 0.5)"

definition WTB_PA_MIN :: real where "WTB_PA_MIN = 150"
definition WTB_PA_MAX :: real where "WTB_PA_MAX = 500"
definition WTB_PA_FLOOR :: real where "WTB_PA_FLOOR = 0.65"

definition wtbPAConfidence :: "jsval \<Rightarrow> real" where
  "wtbPAConfidence pa =
     (case pa of
        Num (Fin p) \<Rightarrow>
          (let x = clampR ((p - WTB_PA_MIN) / (WTB_PA_MAX - WTB_PA_MIN)) 0 1;
               eased = sqrt x
           in WTB_PA_FLOOR + (1 - WTB_PA_FLOOR) * eased)
      | _ \<Rightarrow> WTB_PA_FLOOR)"

definition normWTB :: "jsval \<Rightarrow> real" where
  "normWTB w =
     (case w of
        Num (Fin x) \<Rightarrow>
          (let floor = 0.190; base = 0.223; elite = 0.272 in
           if x \<le> floor then 0
           else if x \<ge> elite then 1
           else if x = base then 0.5
           else if x > base then 0.5 + 0.5 * ((x - base) / (elite - base))
           else 0.5 * ((x - floor) / (base - floor)))
      | _ \<Rightarrow> 0.5)"

section \<open>Projected plate appearances\<close>

text \<open>
  \<open>PROJECTED_PA_TABLE[site]?.[slot]\<close>: the table has the keys 1 to 5 for each site; a
  number is a key of the table exactly when it is one of these five integers.
\<close>

definition PROJECTED_PA_TABLE :: "bool \<Rightarrow> real \<Rightarrow> real option" where
  "PROJECTED_PA_TABLE isHome slot =
     (if isHome then
        (if slot = 1 then Some 4.49 else if slot = 2 then Some 4.40
         else if slot = 3 then Some 4.30 else if slot = 4 then Some 4.20
         else if slot = 5 then Some 4.10 else None)
      else
        (if slot = 1 then Some 4.69 else if slot = 2 then Some 4.59
         else if slot = 3 then Some 4.49 else if slot = 4 then Some 4.39
         else if slot = 5 then Some 4.28 else None))"

definition projectedPAFor :: "jsval \<Rightarrow> bool \<Rightarrow> real option" where
  "projectedPAFor slot isHome =
     (case slot of
        Num (Fin s) \<Rightarrow> PROJECTED_PA_TABLE isHome s
      | _ \<Rightarrow> None)"

section \<open>Head-to-head calibration grid\<close>

definition H2H_OPS_BINS :: "real list" where
  "H2H_OPS_BINS = [0.2, 0.4, 0.6, 0.7, 0.8, 0.85, 0.9, 0.95, 1.0, 1.2, 1.4, 2.0]"

definition H2H_GRID_POINTS :: "real list list" where
  "H2H_GRID_POINTS =
    [
     [14, 14, 14, 14, 14, 16, 16, 16, 16, 17, 17, 19],
     [10, 11, 13, 13, 14, 16, 16, 17, 17, 18, 24, 29],
     [10, 11, 12, 12, 14, 16, 19, 19, 19, 20, 24, 29],
     [6, 7, 11, 11, 14, 17, 20, 19, 20, 22, 28, 30],
     [5, 7, 10, 11, 14, 17, 20, 20, 23, 25, 28, 30],
     [5, 7, 8, 11, 14, 17, 20, 20, 24, 26, 29, 30],
     [5, 7, 7, 10, 14, 17, 20, 22, 25, 26, 29, 30],
     [4, 6, 7, 10, 14, 18, 20, 22, 25, 28, 29, 30],
     [4, 6, 7, 10, 14, 18, 20, 22, 25, 28, 29, 30],
     [4, 5, 7, 10, 14, 18, 20, 22, 26, 28, 29, 30],
     [2, 4, 7, 10, 14, 18, 20, 22, 26, 28, 29, 30],
     [2, 4, 7, 8, 14, 19, 20, 22, 28, 28, 29, 30],
     [2, 4, 7, 8, 14, 19, 22, 23, 28, 29, 29, 30],
     [2, 2, 7, 8, 14, 19, 22, 23, 28, 29, 30, 30],
     [2, 2, 6, 8, 14, 19, 22, 23, 28, 29, 30, 30],
     [2, 2, 6, 7, 14, 20, 23, 23, 29, 29, 30, 30],
     [2, 2, 6, 7, 14, 20, 23, 24, 29, 29, 30, 30],
     [2, 2, 5, 7, 14, 20, 23, 24, 29, 30, 30, 30],
     [2, 2, 5, 7, 14, 22, 23, 25, 29, 30, 30, 30],
     [1, 1, 5, 7, 14, 22, 24, 25, 29, 30, 30, 30],
     [1, 1, 4, 6, 14, 22, 24, 26, 30, 30, 30, 30],
     [1, 1, 4, 6, 14, 22, 24, 26, 30, 30, 30, 30],
     [1, 1, 4, 6, 14, 22, 25, 26, 30, 30, 30, 30],
     [1, 1, 4, 6, 14, 22, 25, 28, 30, 30, 30, 30],
     [1, 1, 4, 6, 14, 22, 25, 28, 30, 30, 30, 30]
    ]"

text \<open>
  The search for the bracketing bin: the first \<open>k\<close> below the last index with
  \<open>bins[k] \<le> ops \<le> bins[k+1]\<close>; the variable \<open>i\<close> keeps its initial value 0 when the
  loop ends without a hit.
\<close>

function h2hBinLoop :: "real \<Rightarrow> nat \<Rightarrow> nat" where
  "h2hBinLoop opsClamped k =
     (if k < length H2H_OPS_BINS - 1 then
        (if opsClamped \<ge> H2H_OPS_BINS ! k \<and> opsClamped \<le> H2H_OPS_BINS ! (k + 1) then k
         else h2hBinLoop opsClamped (k + 1))
      else 0)"
  by pat_completeness auto
termination
  by (relation "measure (\<lambda>(opsClamped, k). length H2H_OPS_BINS - 1 - k)") auto

declare h2hBinLoop.simps [simp del]

definition h2hWeightFromGrid :: "jsval \<Rightarrow> jsval \<Rightarrow> real" where
  "h2hWeightFromGrid ab0 ops0 =
     (let ab = (case ab0 of Num (Fin a) \<Rightarrow> a | _ \<Rightarrow> 0);
          ops = (case ops0 of Num (Fin x) \<Rightarrow> x | _ \<Rightarrow> OPS_BASELINE);
          abClamped = clampR (real_of_int (jsround ab)) 1 25;
          r0 = nat \<lfloor>abClamped - 1\<rfloor>;
          r1 = r0;
          t = 0;
          opsClamped = clampR ops (H2H_OPS_BINS ! 0) (H2H_OPS_BINS ! (length H2H_OPS_BINS - 1));
          i = h2hBinLoop opsClamped 0;
          lo = H2H_OPS_BINS ! i;
          hi = H2H_OPS_BINS ! (min (i + 1) (length H2H_OPS_BINS - 1));
          u = (if hi > lo then (opsClamped - lo) / (hi - lo) else 0);
          row0 = H2H_GRID_POINTS ! r0;
          row1 = H2H_GRID_POINTS ! r1;
          v0 = row0 ! i + u * (row0 ! (min (i + 1) (length row0 - 1)) - row0 ! i);
          v1 = row1 ! i + u * (row1 ! (min (i + 1) (length row1 - 1)) - row1 ! i);
          points = v0 + t * (v1 - v0)
      in clampR (points / 100) 0 0.30)"

section \<open>Composite scorer\<close>

datatype signal = wtb | h9_side | h9_28 | ops_hand | ops_site | last7 | opp | h2h

fun SCORE_WEIGHTS :: "signal \<Rightarrow> real" where
  "SCORE_WEIGHTS wtb = 0.30"
| "SCORE_WEIGHTS h9_side = 0.04"
| "SCORE_WEIGHTS h9_28 = 0.02"
| "SCORE_WEIGHTS ops_hand = 0.15"
| "SCORE_WEIGHTS ops_site = 0.04"
| "SCORE_WEIGHTS last7 = 0.10"
| "SCORE_WEIGHTS opp = 0.05"
| "SCORE_WEIGHTS h2h = 0.15"

text \<open>
  The signals of one hitter against one probable pitcher, as the per-hitter callback of
  \<open>analyzeProbable\<close> has them in its local variables. \<open>paLast7\<close> is finite or \<open>null\<close>:
  \<open>getRangeOPS\<close> stores \<open>Number.isFinite(pa) ? pa : null\<close>.
\<close>

record SignalBundle =
  player_id :: nat
  season_wtb :: jsval
  season_pa :: jsval
  ab_vs_pitcher :: jsval
  pa_vs_pitcher :: jsval
  ops_vs_pitcher :: jsval
  opsVsPitcherHand :: jsval
  opsHomeAwayForGame :: jsval
  opsLast7 :: jsval
  paLast7 :: "real option"
  pitcherH9VsBatterSide :: jsval
  hitsPer9Inn_last_28_days :: jsval
  projectedOrder :: jsval
  opponentIsHome :: bool

text \<open>\<open>const abH2H = r.ab_vs_pitcher ?? 0; const w_h2h_dyn = h2hWeightFromGrid(abH2H, r.ops_vs_pitcher);\<close>\<close>

definition w_h2h_dyn :: "SignalBundle \<Rightarrow> real" where
  "w_h2h_dyn b =
     (let abH2H = (case ab_vs_pitcher b of Null \<Rightarrow> Num (Fin 0) | v \<Rightarrow> v)
      in h2hWeightFromGrid abH2H (ops_vs_pitcher b))"

definition w_last7_dyn :: "SignalBundle \<Rightarrow> real" where
  "w_last7_dyn b =
     (case paLast7 b of
        None \<Rightarrow> SCORE_WEIGHTS last7 * 0.50
      | Some pa \<Rightarrow>
          if pa \<ge> 3 \<and> isFinite (opsLast7 b) then
            (let linScaleL7 = clampR ((pa - 3) / (20 - 3)) 0 1;
                 sqrtScaleL7 = sqrt linScaleL7
             in SCORE_WEIGHTS last7 * (0.50 + 0.50 * sqrtScaleL7))
          else SCORE_WEIGHTS last7 * 0.50)"

definition fixedSum :: "SignalBundle \<Rightarrow> real" where
  "fixedSum b = SCORE_WEIGHTS wtb + SCORE_WEIGHTS opp + w_h2h_dyn b"

fun shrinkPre :: "SignalBundle \<Rightarrow> signal \<Rightarrow> real" where
  "shrinkPre b last7 = w_last7_dyn b"
| "shrinkPre b k = SCORE_WEIGHTS k"

text \<open>
  \<open>Object.values(shrinkPre).reduce((a, b) => a + (Number.isFinite(b) ? b : 0), 0)\<close>; the
  five values are finite.
\<close>

definition shrinkSum :: "SignalBundle \<Rightarrow> real" where
  "shrinkSum b = foldl (\<lambda>a k. a + shrinkPre b k) 0 [h9_side, h9_28, ops_hand, ops_site, last7]"

definition remaining :: "SignalBundle \<Rightarrow> real" where
  "remaining b = 1 - fixedSum b"

definition scaleShrink :: "SignalBundle \<Rightarrow> real" where
  "scaleShrink b = (if shrinkSum b > 0 then max 0 (remaining b) / shrinkSum b else 1)"

text \<open>The resolved weight table \<open>w\<close>.\<close>

fun w_resolved :: "SignalBundle \<Rightarrow> signal \<Rightarrow> real" where
  "w_resolved b wtb = SCORE_WEIGHTS wtb"
| "w_resolved b opp = SCORE_WEIGHTS opp"
| "w_resolved b h2h = w_h2h_dyn b"
| "w_resolved b h9_side = shrinkPre b h9_side * scaleShrink b"
| "w_resolved b h9_28 = shrinkPre b h9_28 * scaleShrink b"
| "w_resolved b ops_hand = shrinkPre b ops_hand * scaleShrink b"
| "w_resolved b ops_site = shrinkPre b ops_site * scaleShrink b"
| "w_resolved b last7 = min (shrinkPre b last7 * scaleShrink b) (SCORE_WEIGHTS last7)"

definition projPA :: "SignalBundle \<Rightarrow> real option" where
  "projPA b = projectedPAFor (projectedOrder b) (opponentIsHome b)"

definition oppShare :: "SignalBundle \<Rightarrow> real" where
  "oppShare b =
     (let oppMin = 4.10; oppMax = 4.69;
          oppNorm = (case projPA b of None \<Rightarrow> 0.5
                     | Some p \<Rightarrow> clampR ((p - oppMin) / (oppMax - oppMin)) 0 1)
      in w_resolved b opp * (0.5 + 0.5 * oppNorm))"

text \<open>The object \<open>comp\<close>, as the list of its entries in the order of the literal.\<close>

definition comp :: "SignalBundle \<Rightarrow> (signal \<times> jsnum) list" where
  "comp b =
     [(wtb, Fin ((normWTB (season_wtb b) * w_resolved b wtb) * wtbPAConfidence (season_pa b))),
      (h9_side, Fin (normH9 (pitcherH9VsBatterSide b) * w_resolved b h9_side)),
      (h9_28, Fin (normH9 (hitsPer9Inn_last_28_days b) * w_resolved b h9_28)),
      (ops_hand, jmul (normOPS (opsVsPitcherHand b)) (Fin (w_resolved b ops_hand))),
      (ops_site, jmul (normOPS (opsHomeAwayForGame b)) (Fin (w_resolved b ops_site))),
      (last7, jmul (normOPS (opsLast7 b)) (Fin (w_resolved b last7))),
      (opp, Fin (oppShare b)),
      (h2h, Fin (w_resolved b h2h))]"

text \<open>\<open>Number.isFinite(v) ? v : d\<close>\<close>

fun finiteOr :: "real \<Rightarrow> jsnum \<Rightarrow> real" where
  "finiteOr d (Fin v) = v"
| "finiteOr d x = d"

definition scoreRaw :: "SignalBundle \<Rightarrow> real" where
  "scoreRaw b = foldl (\<lambda>a v. a + finiteOr 0 v) 0 (map snd (comp b))"

definition scaledScore :: "SignalBundle \<Rightarrow> int" where
  "scaledScore b = max 1 (jsround (clampR (scoreRaw b) 0 1 * 100))"

definition absH2H :: "SignalBundle \<Rightarrow> int" where
  "absH2H b =
     (case map_of (comp b) h2h of
        Some (Fin v) \<Rightarrow> jsround (v * 100)
      | _ \<Rightarrow> 0)"

definition others :: "SignalBundle \<Rightarrow> (signal \<times> jsnum) list" where
  "others b = filter (\<lambda>(k, v). k \<noteq> h2h) (comp b)"

definition denomOthers :: "SignalBundle \<Rightarrow> real" where
  "denomOthers b = foldl (\<lambda>a (k, v). a + finiteOr 0 v) 0 (others b)"

text \<open>The values \<open>base = Number.isFinite(v) ? v : 0\<close> of the entries of \<open>others\<close>.\<close>

definition bases :: "SignalBundle \<Rightarrow> real list" where
  "bases b = map (\<lambda>(k, v). finiteOr 0 v) (others b)"

definition remainingPts :: "SignalBundle \<Rightarrow> int" where
  "remainingPts b = max 0 (scaledScore b - absH2H b)"

definition scaledOthers :: "SignalBundle \<Rightarrow> (signal \<times> int) list" where
  "scaledOthers b =
     map (\<lambda>(k, v).
            let base = finiteOr 0 v;
                scaled = real_of_int (remainingPts b) * (base / denomOthers b)
            in (k, max 0 (jsround scaled)))
         (others b)"

text \<open>
  The index of the largest contribution: the entries are paired with their indices, a
  contribution that is not finite counts as \<open>-1\<close>, the list is sorted by value in
  descending order (\<open>Array.prototype.sort\<close> is stable) and the index of the first element
  is taken.
\<close>

definition maxIdx :: "SignalBundle \<Rightarrow> nat" where
  "maxIdx b =
     fst (hd (sort_key (\<lambda>(i, v). - v)
                (zip [0 ..< length (others b)] (map (\<lambda>(k, v). finiteOr (- 1) v) (others b)))))"

definition tmp :: "SignalBundle \<Rightarrow> (signal \<times> int) list" where
  "tmp b =
     (if denomOthers b > 0 then
        (let sumOthers = foldl (\<lambda>a (k, n). a + n) 0 (scaledOthers b);
             delta = remainingPts b - sumOthers;
             fixed =
               (if delta \<noteq> 0 \<and> length (scaledOthers b) > 0 then
                  (scaledOthers b)[maxIdx b :=
                     (fst (scaledOthers b ! maxIdx b),
                      max 0 (snd (scaledOthers b ! maxIdx b) + delta))]
                else scaledOthers b)
         in fixed @ [(h2h, absH2H b)])
      else [(h2h, scaledScore b)])"

text \<open>
  The part of the record returned for one hitter that the ranking and the claims use.
  \<open>score_breakdown\<close> is \<open>Object.fromEntries(tmp)\<close>; the keys of \<open>tmp\<close> are distinct
  signal names, so the object has exactly the entries of the list.
\<close>

record hitter =
  hid :: nat
  projectedBattingOrder :: jsval
  ops_vs_pitcher_ab :: jsval
  wtb_percent :: jsval
  season_pa_out :: jsval
  score :: int
  h2h_share :: real
  score_breakdown :: "(signal \<times> int) list"

text \<open>
  \<open>Number(x.toFixed(3))\<close>: the nearest multiple of 0.001, a tie going to the value of
  larger magnitude; the special values print and parse back as themselves.
\<close>

fun toFixed3 :: "jsnum \<Rightarrow> jsnum" where
  "toFixed3 (Fin x) = Fin (sgn x * real_of_int \<lfloor>\<bar>x\<bar> * 1000 + 1 / 2\<rfloor> / 1000)"
| "toFixed3 x = x"

definition analyzeHitter :: "SignalBundle \<Rightarrow> hitter" where
  "analyzeHitter b =
     \<lparr> hid = player_id b,
       projectedBattingOrder = projectedOrder b,
       ops_vs_pitcher_ab = ab_vs_pitcher b,
       wtb_percent = (case season_wtb b of Null \<Rightarrow> Null | Num x \<Rightarrow> Num (toFixed3 x)),
       season_pa_out = (if isFinite (season_pa b) then season_pa b else Null),
       score = scaledScore b,
       h2h_share = w_resolved b h2h,
       score_breakdown = tmp b \<rparr>"

section \<open>Ranking and the combined output\<close>

text \<open>
  The filter at the end of \<open>analyzeProbable\<close>:
  \<open>(r.ops_vs_pitcher?.ab ?? 0) >= 1 && r.projectedBattingOrder != null
     && r.projectedBattingOrder <= 5\<close>.
\<close>

definition eligible :: "hitter \<Rightarrow> bool" where
  "eligible r =
     ((case ops_vs_pitcher_ab r of Null \<Rightarrow> False | Num a \<Rightarrow> jge a (Fin 1))
      \<and> (case projectedBattingOrder r of Null \<Rightarrow> False | Num p \<Rightarrow> jge (Fin 5) p))"

text \<open>
  \<open>.sort((a, b) => (b.score ?? -1) - (a.score ?? -1))\<close>: the score is never \<open>null\<close>, and the
  sort is stable, so this is a stable sort by descending score.
\<close>

definition rankHitters :: "SignalBundle list \<Rightarrow> hitter list" where
  "rankHitters vsRows = sort_key (\<lambda>r. - score r) (filter eligible (map analyzeHitter vsRows))"

text \<open>What \<open>main\<close> reads of the value returned by \<open>analyzeProbable\<close>.\<close>

record analysis =
  gamePk :: nat
  game_hitters :: "hitter list"

record outputDoc =
  date :: string
  gamesAnalyzed :: nat
  hitterCount :: nat
  hitters :: "hitter list"

text \<open>\<open>Number.isFinite(h.wtb_percent) ? h.wtb_percent : -1\<close>\<close>

definition wtbSortKey :: "hitter \<Rightarrow> real" where
  "wtbSortKey h = (case wtb_percent h of Num (Fin v) \<Rightarrow> v | _ \<Rightarrow> - 1)"

definition allHitters :: "analysis list \<Rightarrow> hitter list" where
  "allHitters perProbable = concat (map game_hitters perProbable)"

definition sortedHitters :: "analysis list \<Rightarrow> hitter list" where
  "sortedHitters perProbable =
     sort_key (\<lambda>h. - wtbSortKey h)
       (filter (\<lambda>h. case season_pa_out h of Null \<Rightarrow> False | Num p \<Rightarrow> jge p (Fin 85))
          (allHitters perProbable))"

definition out :: "string \<Rightarrow> nat \<Rightarrow> analysis list \<Rightarrow> outputDoc" where
  "out dateStr games perProbable =
     \<lparr> date = dateStr, gamesAnalyzed = games,
       hitterCount = length (sortedHitters perProbable),
       hitters = sortedHitters perProbable \<rparr>"

text \<open>
  The two orders a list of hitters can be in: every hitter's score, respectively sort key
  of the hit rate, is at least that of the hitter that follows.
\<close>

fun scoreDescending :: "hitter list \<Rightarrow> bool" where
  "scoreDescending (a # c # rest) = (score a \<ge> score c \<and> scoreDescending (c # rest))"
| "scoreDescending rest = True"

fun wtbDescending :: "hitter list \<Rightarrow> bool" where
  "wtbDescending (a # c # rest) = (wtbSortKey a \<ge> wtbSortKey c \<and> wtbDescending (c # rest))"
| "wtbDescending rest = True"

section \<open>Lineup-slot projector\<close>

text \<open>
  The object \<open>counts\<close> maps a lineup slot to the number of games in which the hitter
  batted there. \<open>Object.entries\<close> enumerates the integer keys of an object in ascending
  numeric order, whatever the order of insertion, so the object is modelled as the list of
  its entries in ascending order of the slot.
  \<open>entry.counts[bo] = (entry.counts[bo] ?? 0) + 1\<close> is then:
\<close>

fun countsIncr :: "(nat \<times> nat) list \<Rightarrow> nat \<Rightarrow> (nat \<times> nat) list" where
  "countsIncr [] bo = [(bo, 1)]"
| "countsIncr ((k, c) # rest) bo =
     (if bo = k then (k, c + 1) # rest
      else if bo < k then (bo, 1) # (k, c) # rest
      else (k, c) # countsIncr rest bo)"

record lineupEntry =
  counts :: "(nat \<times> nat) list"
  latestSlot :: "nat option"
  latestGameDate :: "string option"

text \<open>
  One observation: the hitter batted in slot \<open>bo\<close> in the game of \<open>gameDate\<close>. The dates
  are strings of the form \<open>YYYY-MM-DD\<close>, compared as strings; an empty or missing latest
  date is falsy.
\<close>

definition recordObservation :: "lineupEntry \<Rightarrow> string \<times> nat \<Rightarrow> lineupEntry" where
  "recordObservation entry obs =
     (let gameDate = fst obs; bo = snd obs;
          entry1 = entry \<lparr> counts := countsIncr (counts entry) bo \<rparr>
      in if (case latestGameDate entry1 of None \<Rightarrow> True | Some d \<Rightarrow> d = [] \<or> gameDate \<ge> d)
         then entry1 \<lparr> latestGameDate := Some gameDate, latestSlot := Some bo \<rparr>
         else entry1)"

definition ordersOfPlayer :: "(string \<times> nat) list \<Rightarrow> lineupEntry" where
  "ordersOfPlayer observations =
     foldl recordObservation \<lparr> counts = [], latestSlot = None, latestGameDate = None \<rparr>
       observations"

text \<open>The body of the loop of \<open>chooseProjectedOrder\<close> on the pair (bestSlot, bestCount).\<close>

fun chooseStep :: "nat option \<Rightarrow> nat option \<times> int \<Rightarrow> nat \<times> nat \<Rightarrow> nat option \<times> int" where
  "chooseStep latest (bestSlot, bestCount) (slot, count) =
     (if int count > bestCount then (Some slot, int count)
      else if int count = bestCount \<and> Some slot = latest then (Some slot, bestCount)
      else (bestSlot, bestCount))"

definition chooseProjectedOrder :: "(nat \<times> nat) list \<Rightarrow> nat option \<Rightarrow> nat option" where
  "chooseProjectedOrder cnts latest = fst (foldl (chooseStep latest) (None, - 1) cnts)"

text \<open>The projection of one player from the observations of the last seven days.\<close>

definition projectSlot :: "(string \<times> nat) list \<Rightarrow> nat option" where
  "projectSlot observations =
     (let entry = ordersOfPlayer observations
      in chooseProjectedOrder (counts entry) (latestSlot entry))"

text \<open>The slots whose count is the highest one, in the order of enumeration.\<close>

definition tiedSlots :: "(nat \<times> nat) list \<Rightarrow> nat list" where
  "tiedSlots cnts = map fst (filter (\<lambda>(s, c). list_all (\<lambda>(s', c'). c' \<le> c) cnts) cnts)"

text \<open>
  The tie-break as the specification words it for a tie that the latest slot is not part
  of: of the slots with the highest count, the one that the chronological sequence of
  observations shows last.
\<close>

definition lastTiedSlotSeen :: "(string \<times> nat) list \<Rightarrow> nat" where
  "lastTiedSlotSeen observations =
     last (filter (\<lambda>bo. bo \<in> set (tiedSlots (counts (ordersOfPlayer observations))))
             (map snd observations))"

text \<open>
  Five games of one hitter in chronological order: twice in the first slot, then twice in
  the second, then once in the third.
\<close>

definition sampleObservations :: "(string \<times> nat) list" where
  "sampleObservations =
     [(''2025-06-01'', 1), (''2025-06-02'', 1), (''2025-06-03'', 2), (''2025-06-04'', 2),
      (''2025-06-05'', 3)]"

text \<open>
  Eight games in chronological order, four in the third slot and four in the fifth, the
  latest one in the fifth.
\<close>

definition tiedObservations :: "(string \<times> nat) list" where
  "tiedObservations =
     [(''2025-05-28'', 3), (''2025-05-29'', 5), (''2025-05-30'', 3), (''2025-05-31'', 3),
      (''2025-06-01'', 5), (''2025-06-02'', 3), (''2025-06-03'', 5), (''2025-06-04'', 5)]"

text \<open>
  The most recent observation as the specification means it: the observation with the
  greatest game date, the last one of them in the order of the fold when several games
  have that date.
\<close>

definition mostRecentObservation :: "(string \<times> nat) list \<Rightarrow> string \<times> nat" where
  "mostRecentObservation observations =
     last (filter (\<lambda>obs. list_all (\<lambda>x. fst x \<le> fst obs) observations) observations)"

text \<open>The occurrence count of a slot: the number of observations that have it.\<close>

definition occurrences :: "(string \<times> nat) list \<Rightarrow> nat \<Rightarrow> nat" where
  "occurrences observations slot = count_list (map snd observations) slot"

text \<open>
  Seven games in chronological order, five in the second slot and two in the fourth.
\<close>

definition clearObservations :: "(string \<times> nat) list" where
  "clearObservations =
     [(''2025-05-29'', 2), (''2025-05-30'', 4), (''2025-05-31'', 2), (''2025-06-01'', 2),
      (''2025-06-02'', 2), (''2025-06-03'', 4), (''2025-06-04'', 2)]"

section \<open>Two sample hitters\<close>

text \<open>
  Two hitters of the same game, both with four at-bats at an OPS of 0.900 against the
  probable pitcher, 500 plate appearances in the season and a projected third slot at home.
  The first has a league-average hit rate and no split data at all; the second has a poor
  hit rate, top OPS splits and twenty plate appearances in the last seven days.
\<close>

definition steadyHitter :: SignalBundle where
  "steadyHitter =
     \<lparr> player_id = 1, season_wtb = Num (Fin 0.223), season_pa = Num (Fin 500),
       ab_vs_pitcher = Num (Fin 4), pa_vs_pitcher = Num (Fin 4), ops_vs_pitcher = Num (Fin 0.9),
       opsVsPitcherHand = Null, opsHomeAwayForGame = Null, opsLast7 = Null, paLast7 = None,
       pitcherH9VsBatterSide = Null, hitsPer9Inn_last_28_days = Null,
       projectedOrder = Num (Fin 3), opponentIsHome = True \<rparr>"

definition hotHitter :: SignalBundle where
  "hotHitter =
     \<lparr> player_id = 2, season_wtb = Num (Fin 0.19), season_pa = Num (Fin 500),
       ab_vs_pitcher = Num (Fin 4), pa_vs_pitcher = Num (Fin 4), ops_vs_pitcher = Num (Fin 0.9),
       opsVsPitcherHand = Num (Fin 1.05), opsHomeAwayForGame = Num (Fin 1.05),
       opsLast7 = Num (Fin 1.05), paLast7 = Some 20,
       pitcherH9VsBatterSide = Null, hitsPer9Inn_last_28_days = Null,
       projectedOrder = Num (Fin 3), opponentIsHome = True \<rparr>"

section \<open>Normalizer of the weighted hit rate\<close>

lemma normWTB_lower_segment:
  assumes "0.190 \<le> x" "x \<le> 0.223"
  shows "normWTB (Num (Fin x)) = 0.5 * ((x - 0.190) / (0.223 - 0.190))"
proof (cases "x < 0.223")
  case True
  with assms show ?thesis
    by (cases "x = 0.190") (simp_all add: normWTB_def Let_def)
next
  case False
  with assms have at_base: "x = 223 / 1000" by simp
  show ?thesis unfolding at_base normWTB_def Let_def by simp
qed

lemma normWTB_upper_segment:
  assumes "0.223 \<le> x" "x \<le> 0.272"
  shows "normWTB (Num (Fin x)) = 0.5 + 0.5 * ((x - 0.223) / (0.272 - 0.223))"
proof (cases "x < 0.272")
  case True
  with assms show ?thesis
    by (cases "x = 0.223") (simp_all add: normWTB_def Let_def)
next
  case False
  with assms have at_elite: "x = 272 / 1000" by simp
  show ?thesis unfolding at_elite normWTB_def Let_def by simp
qed

lemma normWTB_points:
  "normWTB (Num (Fin 0.223)) = 0.5" "normWTB (Num (Fin 0.19)) = 0"
  "normWTB (Num (Fin 0.272)) = 1" "normWTB (Num (Fin 0.30)) = 1"
  by (simp_all add: normWTB_def Let_def)

lemma normWTB_clamped:
  "x \<le> 0.190 \<Longrightarrow> normWTB (Num (Fin x)) = 0"
  "0.272 \<le> x \<Longrightarrow> normWTB (Num (Fin x)) = 1"
  by (simp_all add: normWTB_def Let_def)

text \<open>
  C9: \<open>normWTB\<close> maps 0.223 to 0.5, 0.19 to 0, 0.272 to 1 and 0.30 to 1; it is linear on
  each of the two half-segments between the calibration points, 0 at and below 0.190 and
  1 at and above 0.272.
\<close>

theorem normWTB_calibration:
  "normWTB (Num (Fin 0.223)) = 0.5 \<and> normWTB (Num (Fin 0.19)) = 0
   \<and> normWTB (Num (Fin 0.272)) = 1 \<and> normWTB (Num (Fin 0.30)) = 1
   \<and> (\<forall>x. x \<le> 0.190 \<longrightarrow> normWTB (Num (Fin x)) = 0)
   \<and> (\<forall>x. 0.272 \<le> x \<longrightarrow> normWTB (Num (Fin x)) = 1)
   \<and> (\<forall>x. 0.190 \<le> x \<and> x \<le> 0.223 \<longrightarrow>
         normWTB (Num (Fin x)) = 0.5 * ((x - 0.190) / (0.223 - 0.190)))
   \<and> (\<forall>x. 0.223 \<le> x \<and> x \<le> 0.272 \<longrightarrow>
         normWTB (Num (Fin x)) = 0.5 + 0.5 * ((x - 0.223) / (0.272 - 0.223)))"
proof (intro conjI allI impI)
  fix x :: real assume "0.190 \<le> x \<and> x \<le> 0.223"
  then show "normWTB (Num (Fin x)) = 0.5 * ((x - 0.190) / (0.223 - 0.190))"
    using normWTB_lower_segment [of x] by (elim conjE)
next
  fix x :: real assume "0.223 \<le> x \<and> x \<le> 0.272"
  then show "normWTB (Num (Fin x)) = 0.5 + 0.5 * ((x - 0.223) / (0.272 - 0.223))"
    using normWTB_upper_segment [of x] by (elim conjE)
qed (rule normWTB_points normWTB_clamped, assumption?)+

theorem normWTB_calibration_witness:
  "normWTB (Num (Fin 0.2)) = 0.5 * ((0.2 - 0.190) / (0.223 - 0.190))
   \<and> normWTB (Num (Fin 0.25)) = 0.5 + 0.5 * ((0.25 - 0.223) / (0.272 - 0.223))
   \<and> normWTB (Num (Fin 0.1)) = 0 \<and> normWTB (Num (Fin 0.4)) = 1"
proof -
  note cal = normWTB_calibration
  have a: "(0.190::real) \<le> 0.2 \<and> (0.2::real) \<le> 0.223" by simp
  have b: "(0.223::real) \<le> 0.25 \<and> (0.25::real) \<le> 0.272" by simp
  have c: "(0.1::real) \<le> 0.190" by simp
  have d: "(0.272::real) \<le> 0.4" by simp
  have lowseg: "normWTB (Num (Fin 0.2)) = 0.5 * ((0.2 - 0.190) / (0.223 - 0.190))"
    using cal [THEN conjunct2, THEN conjunct2, THEN conjunct2, THEN conjunct2,
        THEN conjunct2, THEN conjunct2, THEN conjunct1, THEN spec, THEN mp, OF a] .
  have upseg: "normWTB (Num (Fin 0.25)) = 0.5 + 0.5 * ((0.25 - 0.223) / (0.272 - 0.223))"
    using cal [THEN conjunct2, THEN conjunct2, THEN conjunct2, THEN conjunct2,
        THEN conjunct2, THEN conjunct2, THEN conjunct2, THEN spec, THEN mp, OF b] .
  have below: "normWTB (Num (Fin 0.1)) = 0"
    using cal [THEN conjunct2, THEN conjunct2, THEN conjunct2, THEN conjunct2,
        THEN conjunct1, THEN spec, THEN mp, OF c] .
  have above: "normWTB (Num (Fin 0.4)) = 1"
    using cal [THEN conjunct2, THEN conjunct2, THEN conjunct2, THEN conjunct2,
        THEN conjunct2, THEN conjunct1, THEN spec, THEN mp, OF d] .
  from lowseg upseg below above show ?thesis by (intro conjI)
qed

section \<open>Head-to-head weight: bounds and the calibration rows\<close>

lemma H2H_OPS_BINS_nth:
  "length H2H_OPS_BINS = 12"
  "H2H_OPS_BINS ! 0 = 1 / 5" "H2H_OPS_BINS ! 1 = 2 / 5"
  "H2H_OPS_BINS ! 5 = 17 / 20" "H2H_OPS_BINS ! 6 = 9 / 10" "H2H_OPS_BINS ! 7 = 19 / 20"
  "H2H_OPS_BINS ! 11 = 2"
  by (simp_all add: H2H_OPS_BINS_def)

lemma clampR_bounds: "lo \<le> hi \<Longrightarrow> lo \<le> clampR n lo hi \<and> clampR n lo hi \<le> hi"
  by (simp add: clampR_def)

lemma h2hWeightFromGrid_bounds:
  "0 \<le> h2hWeightFromGrid ab ops \<and> h2hWeightFromGrid ab ops \<le> 0.30"
  unfolding h2hWeightFromGrid_def Let_def by (rule clampR_bounds) simp

lemma h2hBinLoop_090: "h2hBinLoop (9 / 10) 0 = 5"
  by (simp add: h2hBinLoop.simps H2H_OPS_BINS_def)

lemma h2hBinLoop_095: "h2hBinLoop (19 / 20) 0 = 6"
  by (simp add: h2hBinLoop.simps H2H_OPS_BINS_def)

lemma H2H_GRID_POINTS_row4:
  "H2H_GRID_POINTS ! 3 = [6, 7, 11, 11, 14, 17, 20, 19, 20, 22, 28, 30]"
  by (simp add: H2H_GRID_POINTS_def)

lemma h2hWeightFromGrid_4_090: "h2hWeightFromGrid (Num (Fin 4)) (Num (Fin 0.9)) = 0.20"
  unfolding h2hWeightFromGrid_def
  apply (simp only: jsval.case jsnum.case Let_def)
  apply (simp add: jsround_def H2H_OPS_BINS_nth)
  apply (simp add: clampR_def)
  apply (simp add: h2hBinLoop_090 H2H_GRID_POINTS_row4 H2H_OPS_BINS_nth)
  done

lemma h2hWeightFromGrid_4_095: "h2hWeightFromGrid (Num (Fin 4)) (Num (Fin 0.95)) = 0.19"
  unfolding h2hWeightFromGrid_def
  apply (simp only: jsval.case jsnum.case Let_def)
  apply (simp add: jsround_def H2H_OPS_BINS_nth)
  apply (simp add: clampR_def)
  apply (simp add: h2hBinLoop_095 H2H_GRID_POINTS_row4 H2H_OPS_BINS_nth)
  done

section \<open>Ranges of the normalizers\<close>

lemma clampR_01: "0 \<le> clampR n 0 1" "clampR n 0 1 \<le> 1"
  by (simp_all add: clampR_def)

lemma normH9_range: "0 \<le> normH9 v" "normH9 v \<le> 1"
  by (auto simp: normH9_def clampR_def split: jsval.splits jsnum.splits)

lemma normPA_range: "0 \<le> normPA v" "normPA v \<le> 1"
  by (auto simp: normPA_def clampR_def split: jsval.splits jsnum.splits)

lemma normWTB_range: "0 \<le> normWTB v" "normWTB v \<le> 1"
  by (auto simp: normWTB_def Let_def field_simps split: jsval.splits jsnum.splits)

lemma normOPS_finite_range: "\<exists>r. normOPS (Num (Fin x)) = Fin r \<and> 0 \<le> r \<and> r \<le> 1"
  by (simp add: normOPS_def clamp_def)

lemma normOPS_cases: "normOPS v = NaN \<or> (\<exists>r. normOPS v = Fin r \<and> 0 \<le> r \<and> r \<le> 1)"
proof (cases v)
  case Null
  then have "normOPS v = Fin (1 / 2) \<and> (0::real) \<le> 1 / 2 \<and> (1 / 2 :: real) \<le> 1"
    by (simp add: normOPS_def)
  then show ?thesis by blast
next
  case (Num x)
  then show ?thesis by (cases x) (simp_all add: normOPS_def clamp_def)
qed

lemma normalizers_neutral:
  "\<not> isFinite v \<Longrightarrow> normH9 v = 0.5 \<and> normPA v = 0.5 \<and> normWTB v = 0.5"
  by (cases v rule: isFinite.cases) (simp_all add: normH9_def normPA_def normWTB_def)

text \<open>
  C6: every normalizer returns a value in [0,1] and the neutral 0.5 for a missing or
  non-finite input. \<open>normH9\<close>, \<open>normPA\<close> and \<open>normWTB\<close> do (lemmas \<open>normH9_range\<close>,
  \<open>normPA_range\<close>, \<open>normWTB_range\<close>, \<open>normalizers_neutral\<close>); \<open>normOPS\<close> guards against
  \<open>null\<close> only and returns \<open>NaN\<close> for \<open>NaN\<close>, 1 for \<open>Infinity\<close> and 0 for \<open>-Infinity\<close>.
\<close>

theorem normOPS_not_finite:
  "normOPS (Num NaN) = NaN \<and> normOPS (Num PInf) = Fin 1 \<and> normOPS (Num NInf) = Fin 0
   \<and> normOPS Null = Fin 0.5
   \<and> normH9 (Num NaN) = 0.5 \<and> normPA (Num NaN) = 0.5 \<and> normWTB (Num NaN) = 0.5"
  by (simp add: normOPS_def clamp_def normH9_def normPA_def normWTB_def)

lemma sqrt_clampR_01: "0 \<le> sqrt (clampR n 0 1)" "sqrt (clampR n 0 1) \<le> 1"
  using clampR_01 [of n] by simp_all

lemma wtbPAConfidence_range: "0.65 \<le> wtbPAConfidence v \<and> wtbPAConfidence v \<le> 1"
proof (cases "isFinite v")
  case False
  then show ?thesis
    by (cases v rule: isFinite.cases) (simp_all add: wtbPAConfidence_def WTB_PA_FLOOR_def)
next
  case True
  then obtain p where v: "v = Num (Fin p)"
    by (cases v rule: isFinite.cases) simp_all
  define s where "s = sqrt (clampR ((p - WTB_PA_MIN) / (WTB_PA_MAX - WTB_PA_MIN)) 0 1)"
  have s: "0 \<le> s" "s \<le> 1" unfolding s_def by (rule sqrt_clampR_01)+
  have "wtbPAConfidence v = 0.65 + (1 - 0.65) * s"
    by (simp add: v wtbPAConfidence_def WTB_PA_FLOOR_def Let_def s_def)
  with s show ?thesis by simp
qed

section \<open>The resolved weight table\<close>

lemma w_h2h_dyn_bounds: "0 \<le> w_h2h_dyn b \<and> w_h2h_dyn b \<le> 0.30"
  unfolding w_h2h_dyn_def Let_def by (rule h2hWeightFromGrid_bounds)

lemma w_last7_dyn_bounds: "0.05 \<le> w_last7_dyn b \<and> w_last7_dyn b \<le> 0.10"
proof -
  have half: "SCORE_WEIGHTS last7 * 0.50 = 0.05" by simp
  have ramp: "0.05 \<le> SCORE_WEIGHTS last7 * (0.50 + 0.50 * sqrt (clampR n 0 1))
              \<and> SCORE_WEIGHTS last7 * (0.50 + 0.50 * sqrt (clampR n 0 1)) \<le> 0.10" for n
    using sqrt_clampR_01 [of n] by simp
  show ?thesis
    unfolding w_last7_dyn_def Let_def
    using ramp by (simp add: half split: option.split)
qed

lemma shrinkSum_eq: "shrinkSum b = 0.25 + w_last7_dyn b"
  by (simp add: shrinkSum_def)

lemma remaining_eq: "remaining b = 0.65 - w_h2h_dyn b"
  by (simp add: remaining_def fixedSum_def)

lemma scaleShrink_eq: "scaleShrink b = (0.65 - w_h2h_dyn b) / (0.25 + w_last7_dyn b)"
  using w_h2h_dyn_bounds [of b] w_last7_dyn_bounds [of b]
  by (simp add: scaleShrink_def shrinkSum_eq remaining_eq)

lemma scaleShrink_pos: "0 < scaleShrink b"
  using w_h2h_dyn_bounds [of b] w_last7_dyn_bounds [of b]
  by (simp add: scaleShrink_eq)

lemma scaled_total: "scaleShrink b * (0.25 + w_last7_dyn b) = 0.65 - w_h2h_dyn b"
  using w_last7_dyn_bounds [of b] by (simp add: scaleShrink_eq)

lemma weights_sum_eq:
  "sum_list (map (w_resolved b) [wtb, opp, h2h, h9_side, h9_28, ops_hand, ops_site, last7])
   = 0.35 + w_h2h_dyn b + 0.25 * scaleShrink b + min (w_last7_dyn b * scaleShrink b) 0.10"
  by simp

lemma weights_sum_le_1:
  "sum_list (map (w_resolved b) [wtb, opp, h2h, h9_side, h9_28, ops_hand, ops_site, last7]) \<le> 1"
proof -
  have "min (w_last7_dyn b * scaleShrink b) 0.10 \<le> w_last7_dyn b * scaleShrink b" by simp
  then have "sum_list (map (w_resolved b) [wtb, opp, h2h, h9_side, h9_28, ops_hand, ops_site, last7])
             \<le> 0.35 + w_h2h_dyn b + scaleShrink b * (0.25 + w_last7_dyn b)"
    unfolding weights_sum_eq by (simp add: algebra_simps)
  then show ?thesis unfolding scaled_total by simp
qed


subsection \<open>The weights of the two sample hitters\<close>

lemma w_h2h_dyn_samples: "w_h2h_dyn steadyHitter = 0.20" "w_h2h_dyn hotHitter = 0.20"
  by (simp_all add: w_h2h_dyn_def steadyHitter_def hotHitter_def h2hWeightFromGrid_4_090)

lemma w_last7_dyn_samples: "w_last7_dyn steadyHitter = 0.05" "w_last7_dyn hotHitter = 0.10"
  by (simp_all add: w_last7_dyn_def steadyHitter_def hotHitter_def clampR_def)

lemma scaleShrink_samples: "scaleShrink steadyHitter = 3 / 2" "scaleShrink hotHitter = 9 / 7"
  by (simp_all add: scaleShrink_eq w_h2h_dyn_samples w_last7_dyn_samples)




section \<open>The eight contributions\<close>

lemma finiteOr_jmul_range:
  assumes "0 \<le> w"
  shows "0 \<le> finiteOr 0 (jmul (normOPS v) (Fin w)) \<and> finiteOr 0 (jmul (normOPS v) (Fin w)) \<le> w"
proof -
  from normOPS_cases [of v] show ?thesis
  proof
    assume "normOPS v = NaN"
    with assms show ?thesis by simp
  next
    assume "\<exists>r. normOPS v = Fin r \<and> 0 \<le> r \<and> r \<le> 1"
    then obtain r where r: "normOPS v = Fin r" "0 \<le> r" "r \<le> 1" by blast
    from r(3) assms have "r * w \<le> 1 * w" by (rule mult_right_mono)
    with r assms show ?thesis by simp
  qed
qed

lemma scaled_weight_nonneg: "0 \<le> SCORE_WEIGHTS k * scaleShrink b"
  using scaleShrink_pos [of b] by (cases k) simp_all

lemma w_resolved_nonneg: "0 \<le> w_resolved b k"
  using scaleShrink_pos [of b] w_h2h_dyn_bounds [of b] w_last7_dyn_bounds [of b]
  by (cases k) simp_all

lemma oppShare_range: "0.025 \<le> oppShare b \<and> oppShare b \<le> 0.05"
proof -
  have "0.025 \<le> 0.05 * (0.5 + 0.5 * x) \<and> 0.05 * (0.5 + 0.5 * x) \<le> 0.05"
    if "0 \<le> x" "x \<le> 1" for x :: real
    using that by simp
  then show ?thesis
    unfolding oppShare_def Let_def
    using clampR_01 by (simp split: option.split)
qed

lemma others_eq:
  "others b =
     [(wtb, Fin ((normWTB (season_wtb b) * w_resolved b wtb) * wtbPAConfidence (season_pa b))),
      (h9_side, Fin (normH9 (pitcherH9VsBatterSide b) * w_resolved b h9_side)),
      (h9_28, Fin (normH9 (hitsPer9Inn_last_28_days b) * w_resolved b h9_28)),
      (ops_hand, jmul (normOPS (opsVsPitcherHand b)) (Fin (w_resolved b ops_hand))),
      (ops_site, jmul (normOPS (opsHomeAwayForGame b)) (Fin (w_resolved b ops_site))),
      (last7, jmul (normOPS (opsLast7 b)) (Fin (w_resolved b last7))),
      (opp, Fin (oppShare b))]"
  by (simp add: others_def comp_def)

lemma bases_eq:
  "bases b =
     [(normWTB (season_wtb b) * w_resolved b wtb) * wtbPAConfidence (season_pa b),
      normH9 (pitcherH9VsBatterSide b) * w_resolved b h9_side,
      normH9 (hitsPer9Inn_last_28_days b) * w_resolved b h9_28,
      finiteOr 0 (jmul (normOPS (opsVsPitcherHand b)) (Fin (w_resolved b ops_hand))),
      finiteOr 0 (jmul (normOPS (opsHomeAwayForGame b)) (Fin (w_resolved b ops_site))),
      finiteOr 0 (jmul (normOPS (opsLast7 b)) (Fin (w_resolved b last7))),
      oppShare b]"
  unfolding bases_def others_eq by simp

lemma length_bases: "length (bases b) = 7"
  by (simp add: bases_eq)

lemma length_others: "length (others b) = 7"
  by (simp add: others_eq)

lemma wtb_contribution_range:
  "0 \<le> (normWTB v * w_resolved b wtb) * wtbPAConfidence p
   \<and> (normWTB v * w_resolved b wtb) * wtbPAConfidence p \<le> w_resolved b wtb"
proof -
  have n: "0 \<le> normWTB v" "normWTB v \<le> 1" by (rule normWTB_range)+
  have c: "0 \<le> wtbPAConfidence p" "wtbPAConfidence p \<le> 1"
    using wtbPAConfidence_range [of p] by simp_all
  have "normWTB v * wtbPAConfidence p \<le> 1 * 1"
    using n c by (intro mult_mono) simp_all
  moreover have "0 \<le> normWTB v * wtbPAConfidence p" using n c by simp
  ultimately show ?thesis by simp
qed

lemma h9_contribution_range:
  "0 \<le> normH9 v * w_resolved b k \<and> normH9 v * w_resolved b k \<le> w_resolved b k"
proof -
  have n: "0 \<le> normH9 v" "normH9 v \<le> 1" by (rule normH9_range)+
  have w: "0 \<le> w_resolved b k" by (rule w_resolved_nonneg)
  from n(2) w have "normH9 v * w_resolved b k \<le> 1 * w_resolved b k" by (rule mult_right_mono)
  with n w show ?thesis by simp
qed

lemma bases_nonneg: "x \<in> set (bases b) \<Longrightarrow> 0 \<le> x"
  unfolding bases_eq
  using wtb_contribution_range [of "season_wtb b" b "season_pa b"]
    h9_contribution_range [of "pitcherH9VsBatterSide b" b h9_side]
    h9_contribution_range [of "hitsPer9Inn_last_28_days b" b h9_28]
    finiteOr_jmul_range [OF w_resolved_nonneg, of "opsVsPitcherHand b" b ops_hand]
    finiteOr_jmul_range [OF w_resolved_nonneg, of "opsHomeAwayForGame b" b ops_site]
    finiteOr_jmul_range [OF w_resolved_nonneg, of "opsLast7 b" b last7]
    oppShare_range [of b]
  by auto

lemma denomOthers_eq: "denomOthers b = sum_list (bases b)"
  unfolding denomOthers_def bases_eq others_eq by simp

lemma scoreRaw_eq: "scoreRaw b = denomOthers b + w_h2h_dyn b"
  unfolding scoreRaw_def denomOthers_eq bases_eq comp_def by simp

lemma denomOthers_lower: "oppShare b \<le> denomOthers b"
proof -
  have "sum_list (bases b) = sum_list (butlast (bases b)) + oppShare b"
    unfolding bases_eq by simp
  moreover have "0 \<le> sum_list (butlast (bases b))"
    by (rule sum_list_nonneg) (auto dest: in_set_butlastD bases_nonneg)
  ultimately show ?thesis unfolding denomOthers_eq by simp
qed

lemma denomOthers_upper: "denomOthers b \<le> 1 - w_h2h_dyn b"
proof -
  note r1 = wtb_contribution_range [of "season_wtb b" b "season_pa b"]
  note r2 = h9_contribution_range [of "pitcherH9VsBatterSide b" b h9_side]
  note r3 = h9_contribution_range [of "hitsPer9Inn_last_28_days b" b h9_28]
  note r4 = finiteOr_jmul_range [OF w_resolved_nonneg, of "opsVsPitcherHand b" b ops_hand]
  note r5 = finiteOr_jmul_range [OF w_resolved_nonneg, of "opsHomeAwayForGame b" b ops_site]
  note r6 = finiteOr_jmul_range [OF w_resolved_nonneg, of "opsLast7 b" b last7]
  have r7: "oppShare b \<le> w_resolved b opp" using oppShare_range [of b] by simp
  have "sum_list (bases b) \<le> w_resolved b wtb + w_resolved b h9_side + w_resolved b h9_28
          + w_resolved b ops_hand + w_resolved b ops_site + w_resolved b last7 + w_resolved b opp"
    unfolding bases_eq sum_list.Cons sum_list.Nil
    using r1 r2 r3 r4 r5 r6 r7 by linarith
  also have "\<dots> = sum_list (map (w_resolved b) [wtb, opp, h2h, h9_side, h9_28, ops_hand, ops_site, last7])
                  - w_h2h_dyn b"
    by simp
  also have "\<dots> \<le> 1 - w_h2h_dyn b"
    using weights_sum_le_1 [of b] by linarith
  finally show ?thesis unfolding denomOthers_eq .
qed

lemma denomOthers_pos: "0 < denomOthers b"
  using denomOthers_lower [of b] oppShare_range [of b] by simp

section \<open>The score\<close>

lemma jsround_mono: "x \<le> y \<Longrightarrow> jsround x \<le> jsround y"
  unfolding jsround_def by (intro floor_mono) simp

lemma jsround_upper: "real_of_int (jsround x) \<le> x + 1 / 2"
  unfolding jsround_def by (rule of_int_floor_le)

lemma jsround_lower: "x - 1 / 2 < real_of_int (jsround x)"
  unfolding jsround_def by linarith

lemma jsround_nonneg: "0 \<le> x \<Longrightarrow> 0 \<le> jsround x"
  unfolding jsround_def by simp

lemma jsround_le_double:
  assumes "0 \<le> x"
  shows "real_of_int (jsround x) \<le> 2 * x"
proof (cases "x < 1 / 2")
  case True
  with assms have "jsround x = 0" unfolding jsround_def by (intro floor_unique) simp_all
  with assms show ?thesis by simp
next
  case False
  with jsround_upper [of x] show ?thesis by simp
qed

lemma scoreRaw_range: "w_h2h_dyn b + 0.025 \<le> scoreRaw b \<and> scoreRaw b \<le> 1"
  using denomOthers_lower [of b] oppShare_range [of b] denomOthers_upper [of b]
  unfolding scoreRaw_eq by linarith

lemma clampR_scoreRaw: "clampR (scoreRaw b) 0 1 = scoreRaw b"
  using scoreRaw_range [of b] w_h2h_dyn_bounds [of b] by (simp add: clampR_def)

lemma scaledScore_eq: "scaledScore b = jsround (scoreRaw b * 100)"
proof -
  have "0.025 \<le> scoreRaw b" using scoreRaw_range [of b] w_h2h_dyn_bounds [of b] by linarith
  then have "jsround (5 / 2) \<le> jsround (scoreRaw b * 100)" by (intro jsround_mono) simp
  moreover have "jsround (5 / 2) = 3" by (simp add: jsround_def)
  ultimately show ?thesis by (simp add: scaledScore_def clampR_scoreRaw)
qed


lemma absH2H_eq: "absH2H b = jsround (w_h2h_dyn b * 100)"
  by (simp add: absH2H_def comp_def)

lemma absH2H_le_scaledScore: "absH2H b \<le> scaledScore b"
  unfolding absH2H_eq scaledScore_eq
  using scoreRaw_range [of b] by (intro jsround_mono) simp

lemma remainingPts_eq: "remainingPts b = scaledScore b - absH2H b"
  using absH2H_le_scaledScore [of b] by (simp add: remainingPts_def)

lemma remainingPts_nonneg: "0 \<le> remainingPts b"
  by (simp add: remainingPts_def)

lemma remainingPts_gap: "100 * denomOthers b < real_of_int (remainingPts b) + 1"
proof -
  have "scoreRaw b * 100 - 1 / 2 < real_of_int (scaledScore b)"
    unfolding scaledScore_eq by (rule jsround_lower)
  moreover have "real_of_int (absH2H b) \<le> w_h2h_dyn b * 100 + 1 / 2"
    unfolding absH2H_eq by (rule jsround_upper)
  ultimately show ?thesis unfolding remainingPts_eq scoreRaw_eq by simp
qed

section \<open>Reconciliation of the breakdown\<close>

subsection \<open>Sums of rounded shares\<close>

lemma sum_list_without_nth:
  fixes xs :: "'a::comm_monoid_add list"
  assumes "m < length xs"
  shows "sum_list xs = sum_list (take m xs @ drop (Suc m) xs) + xs ! m"
proof -
  have "sum_list xs = sum_list (take m xs @ xs ! m # drop (Suc m) xs)"
    using id_take_nth_drop [OF assms] by simp
  then show ?thesis by (simp add: ac_simps)
qed

lemma sum_list_update_int:
  fixes xs :: "int list"
  assumes "m < length xs"
  shows "sum_list (xs[m := v]) = sum_list xs - xs ! m + v"
proof -
  have "sum_list (xs[m := v]) = sum_list (take m xs @ v # drop (Suc m) xs)"
    using upd_conv_take_nth_drop [OF assms] by simp
  with sum_list_without_nth [OF assms] show ?thesis by simp
qed

lemma sum_jsround_le_add:
  "real_of_int (sum_list (map jsround ys)) \<le> sum_list ys + real (length ys) / 2"
proof (induction ys)
  case Nil
  show ?case by simp
next
  case (Cons y ys)
  with jsround_upper [of y] show ?case by (simp add: field_simps)
qed

lemma sum_jsround_le_double:
  "\<forall>y\<in>set ys. 0 \<le> y \<Longrightarrow> real_of_int (sum_list (map jsround ys)) \<le> 2 * sum_list ys"
proof (induction ys)
  case Nil
  show ?case by simp
next
  case (Cons y ys)
  with jsround_le_double [of y] show ?case by simp
qed

lemma sum_list_shares:
  fixes d :: real
  assumes "d \<noteq> 0"
  shows "sum_list (map (\<lambda>x. c * (x / d)) xs) = c * (sum_list xs / d)"
  by (induction xs) (simp_all add: algebra_simps add_divide_distrib)

text \<open>
  Seven non-negative shares that sum to the integer \<open>R\<close>; if the share at \<open>m\<close> is at
  least half of \<open>R\<close> or larger than 2, the other six rounded shares sum to at most \<open>R\<close>.
\<close>

lemma rounded_rest_le:
  fixes xs :: "real list" and R :: int
  assumes nonneg: "\<forall>x\<in>set xs. 0 \<le> x"
    and len: "length xs = 7"
    and m: "m < 7"
    and total: "sum_list xs = real_of_int R"
    and big: "real_of_int R \<le> 2 * xs ! m \<or> 2 < xs ! m"
  shows "sum_list (map jsround xs) - jsround (xs ! m) \<le> R"
proof -
  define ys where "ys = take m xs @ drop (Suc m) xs"
  have m': "m < length xs" using len m by simp
  have ys_len: "length ys = 6" unfolding ys_def using len m by simp
  have ys_nonneg: "\<forall>y\<in>set ys. 0 \<le> y"
    unfolding ys_def using nonneg by (auto dest: in_set_takeD in_set_dropD)
  have ys_sum: "sum_list ys = real_of_int R - xs ! m"
    using sum_list_without_nth [OF m'] total unfolding ys_def by simp
  have "sum_list (map jsround xs) = sum_list (map jsround ys) + jsround (xs ! m)"
    using sum_list_without_nth [of m "map jsround xs"] m'
    unfolding ys_def by (simp add: take_map drop_map)
  moreover have "sum_list (map jsround ys) \<le> R"
    using big
  proof
    assume "real_of_int R \<le> 2 * xs ! m"
    with sum_jsround_le_double [OF ys_nonneg] ys_sum
    have "real_of_int (sum_list (map jsround ys)) \<le> real_of_int R" by simp
    then show ?thesis by simp
  next
    assume "2 < xs ! m"
    with sum_jsround_le_add [of ys] ys_sum ys_len
    have "real_of_int (sum_list (map jsround ys)) < real_of_int R + 1" by simp
    then show ?thesis by linarith
  qed
  ultimately show ?thesis by simp
qed

subsection \<open>The index of the largest contribution\<close>

lemma hd_sort_key_least:
  assumes "xs \<noteq> []"
  shows "hd (sort_key f xs) \<in> set xs \<and> (\<forall>x\<in>set xs. f (hd (sort_key f xs)) \<le> f x)"
proof -
  have "sort_key f xs \<noteq> []" using assms length_sort [of f xs] by (metis length_0_conv)
  then obtain y ys where ys: "sort_key f xs = y # ys"
    by (cases "sort_key f xs") simp_all
  have "sorted (map f (y # ys))" using sorted_sort_key [of f xs] unfolding ys .
  then have least: "\<forall>z\<in>set (y # ys). f y \<le> f z" by auto
  have "set (y # ys) = set xs" using set_sort [of f xs] unfolding ys .
  with least show ?thesis unfolding ys by auto
qed

lemma finiteOr_neg_le: "finiteOr (- 1) v \<le> finiteOr 0 v"
  by (cases v) simp_all

lemma maxIdx_props: "maxIdx b < 7 \<and> 0.025 \<le> bases b ! maxIdx b"
proof -
  define ks where "ks = map (\<lambda>(k, v). finiteOr (- 1) v) (others b)"
  define zs where "zs = zip [0 ..< length (others b)] ks"
  have ks_len: "length ks = 7" unfolding ks_def by (simp add: length_others)
  have zs_len: "length zs = 7" unfolding zs_def by (simp add: length_others ks_len)
  then have "zs \<noteq> []" by auto
  from hd_sort_key_least [OF this, of "\<lambda>(i, v). - v"]
  have hd_in: "hd (sort_key (\<lambda>(i, v). - v) zs) \<in> set zs"
    and hd_least: "\<forall>x\<in>set zs. (\<lambda>(i, v). - v) (hd (sort_key (\<lambda>(i, v). - v) zs)) \<le> (\<lambda>(i, v). - v) x"
    by blast+
  obtain i v where iv: "hd (sort_key (\<lambda>(i, v). - v) zs) = (i, v)" by (cases "hd (sort_key (\<lambda>(i, v). - v) zs)")
  have mi: "maxIdx b = i" unfolding maxIdx_def zs_def [symmetric] ks_def [symmetric] iv by simp
  from hd_in iv have "(i, v) \<in> set zs" by simp
  then obtain n where n: "[0 ..< length (others b)] ! n = i" "ks ! n = v"
      "n < length [0 ..< length (others b)]"
    unfolding zs_def in_set_zip by auto
  from n(3) have n7: "n < 7" by (simp add: length_others)
  with n(1) have "i = n" by (simp add: length_others)
  with n n7 have i7: "i < 7" and v: "v = ks ! i" by simp_all
  have others6: "others b ! 6 = (opp, Fin (oppShare b))" unfolding others_eq by simp
  have ks6: "ks ! 6 = oppShare b"
    unfolding ks_def using others6 by (simp add: length_others)
  have "[0 ..< length (others b)] ! 6 = fst (6, oppShare b) \<and> ks ! 6 = snd (6, oppShare b)
        \<and> 6 < length [0 ..< length (others b)] \<and> 6 < length ks"
    using ks6 ks_len by (simp add: length_others)
  then have "(6, oppShare b) \<in> set zs"
    unfolding zs_def in_set_zip by (rule exI)
  with hd_least iv have "oppShare b \<le> v" by auto
  moreover have "ks ! i \<le> bases b ! i"
  proof -
    obtain k x where kx: "others b ! i = (k, x)" by (cases "others b ! i")
    have "ks ! i = finiteOr (- 1) x" unfolding ks_def using i7 kx by (simp add: length_others)
    moreover have "bases b ! i = finiteOr 0 x" unfolding bases_def using i7 kx by (simp add: length_others)
    ultimately show ?thesis by (simp add: finiteOr_neg_le)
  qed
  ultimately show ?thesis using oppShare_range [of b] i7 v mi by simp
qed

subsection \<open>The points of the seven other signals\<close>

lemma foldl_add_snd:
  fixes l :: "('a \<times> int) list"
  shows "foldl (\<lambda>a (k, n). a + n) s l = s + sum_list (map snd l)"
  by (induction l arbitrary: s) (simp_all add: split_beta)

lemma share_nonneg:
  assumes "x \<in> set (bases b)"
  shows "0 \<le> real_of_int (remainingPts b) * (x / denomOthers b)"
  using bases_nonneg [OF assms] remainingPts_nonneg [of b] denomOthers_pos [of b] by simp

lemma shares_sum:
  "sum_list (map (\<lambda>x. real_of_int (remainingPts b) * (x / denomOthers b)) (bases b))
   = real_of_int (remainingPts b)"
proof -
  have d: "denomOthers b \<noteq> 0" using denomOthers_pos [of b] by simp
  show ?thesis
    unfolding sum_list_shares [OF d] using d by (simp add: denomOthers_eq)
qed

lemma share_at_maxIdx_big:
  "real_of_int (remainingPts b)
     \<le> 2 * (real_of_int (remainingPts b) * (bases b ! maxIdx b / denomOthers b))
   \<or> 2 < real_of_int (remainingPts b) * (bases b ! maxIdx b / denomOthers b)"
proof -
  define R where "R = remainingPts b"
  define D where "D = denomOthers b"
  define c where "c = bases b ! maxIdx b"
  have D: "0 < D" unfolding D_def by (rule denomOthers_pos)
  have c: "1 / 40 \<le> c" unfolding c_def using maxIdx_props [of b] by simp
  have R: "0 \<le> R" unfolding R_def by (rule remainingPts_nonneg)
  have gap: "100 * D < real_of_int R + 1" unfolding R_def D_def by (rule remainingPts_gap)
  have "real_of_int R \<le> 2 * (real_of_int R * (c / D)) \<or> 2 < real_of_int R * (c / D)"
  proof (cases "R \<le> 4")
    case True
    then have "real_of_int R \<le> 4" by simp
    with gap have "D \<le> 2 * c" using c by linarith
    then have "1 \<le> 2 * (c / D)" using D by (simp add: field_simps)
    then have "real_of_int R * 1 \<le> real_of_int R * (2 * (c / D))"
      using R by (intro mult_left_mono) simp_all
    then have "real_of_int R \<le> 2 * (real_of_int R * (c / D))" by (simp add: mult.left_commute)
    then show ?thesis ..
  next
    case False
    then have "5 \<le> real_of_int R" by simp
    with gap have "80 * D < real_of_int R" by linarith
    then have "2 * D < real_of_int R * (1 / 40)" by simp
    also have "\<dots> \<le> real_of_int R * c" using R c by (intro mult_left_mono) simp_all
    finally have "2 < real_of_int R * c / D" using D by (simp add: field_simps)
    then have "2 < real_of_int R * (c / D)" by simp
    then show ?thesis ..
  qed
  then show ?thesis unfolding R_def D_def c_def .
qed

lemma scaledOthers_keys: "map fst (scaledOthers b) = [wtb, h9_side, h9_28, ops_hand, ops_site, last7, opp]"
  unfolding scaledOthers_def others_eq by (simp add: Let_def)

lemma scaledOthers_points:
  "map snd (scaledOthers b)
   = map jsround (map (\<lambda>x. real_of_int (remainingPts b) * (x / denomOthers b)) (bases b))"
proof -
  have "map snd (scaledOthers b)
        = map (\<lambda>x. max 0 (jsround (real_of_int (remainingPts b) * (x / denomOthers b)))) (bases b)"
    unfolding scaledOthers_def bases_def by (simp add: Let_def split_beta)
  also have "\<dots> = map (\<lambda>x. jsround (real_of_int (remainingPts b) * (x / denomOthers b))) (bases b)"
  proof (rule map_cong [OF refl])
    fix x assume "x \<in> set (bases b)"
    from jsround_nonneg [OF share_nonneg [OF this]]
    show "max 0 (jsround (real_of_int (remainingPts b) * (x / denomOthers b)))
          = jsround (real_of_int (remainingPts b) * (x / denomOthers b))"
      by simp
  qed
  finally show ?thesis by simp
qed

lemma rest_of_points_le:
  "sum_list (map snd (scaledOthers b)) - snd (scaledOthers b ! maxIdx b) \<le> remainingPts b"
proof -
  define xs where "xs = map (\<lambda>x. real_of_int (remainingPts b) * (x / denomOthers b)) (bases b)"
  have m: "maxIdx b < 7" using maxIdx_props [of b] by simp
  have len: "length xs = 7" unfolding xs_def by (simp add: length_bases)
  have nonneg: "\<forall>x\<in>set xs. 0 \<le> x" unfolding xs_def using share_nonneg [of _ b] by auto
  have total: "sum_list xs = real_of_int (remainingPts b)" unfolding xs_def by (rule shares_sum)
  have xm: "xs ! maxIdx b = real_of_int (remainingPts b) * (bases b ! maxIdx b / denomOthers b)"
    unfolding xs_def using m by (simp add: length_bases)
  have big: "real_of_int (remainingPts b) \<le> 2 * xs ! maxIdx b \<or> 2 < xs ! maxIdx b"
    unfolding xm by (rule share_at_maxIdx_big)
  have pts: "map snd (scaledOthers b) = map jsround xs"
    unfolding xs_def by (rule scaledOthers_points)
  have len_so: "length (scaledOthers b) = 7"
    using arg_cong [OF scaledOthers_keys [of b], of length] by simp
  have "snd (scaledOthers b ! maxIdx b) = map snd (scaledOthers b) ! maxIdx b"
    using m len_so by simp
  also have "\<dots> = jsround (xs ! maxIdx b)" unfolding pts using m len by simp
  finally show ?thesis
    unfolding pts using rounded_rest_le [OF nonneg len m total big] by simp
qed

subsection \<open>The reconciled list\<close>

lemma length_scaledOthers: "length (scaledOthers b) = 7"
  using arg_cong [OF scaledOthers_keys [of b], of length] by simp

lemma tmp_structure:
  "\<exists>pts. tmp b = zip [wtb, h9_side, h9_28, ops_hand, ops_site, last7, opp] pts @ [(h2h, absH2H b)]
         \<and> length pts = 7 \<and> sum_list pts = remainingPts b"
proof -
  define so where "so = scaledOthers b"
  define m where "m = maxIdx b"
  define delta where "delta = remainingPts b - sum_list (map snd so)"
  define fixed where "fixed = (if delta \<noteq> 0 then so[m := (fst (so ! m), max 0 (snd (so ! m) + delta))] else so)"
  have len: "length so = 7" unfolding so_def by (rule length_scaledOthers)
  have m: "m < length so" unfolding m_def len using maxIdx_props [of b] by simp
  have keys: "map fst so = [wtb, h9_side, h9_28, ops_hand, ops_site, last7, opp]"
    unfolding so_def by (rule scaledOthers_keys)
  have tmp: "tmp b = fixed @ [(h2h, absH2H b)]"
    unfolding tmp_def fixed_def delta_def so_def m_def
    using denomOthers_pos [of b] by (simp add: Let_def foldl_add_snd length_scaledOthers)
  have fixed_keys: "map fst fixed = map fst so"
  proof -
    have "(map fst so)[m := fst (so ! m)] = map fst so"
      using list_update_id [of "map fst so" m] m by (simp del: list_update_id)
    then show ?thesis unfolding fixed_def by (simp add: map_update)
  qed
  have fixed_sum: "sum_list (map snd fixed) = remainingPts b"
  proof (cases "delta = 0")
    case True
    then show ?thesis unfolding fixed_def delta_def by simp
  next
    case False
    have "sum_list (map snd so) - snd (so ! m) \<le> remainingPts b"
      unfolding so_def m_def by (rule rest_of_points_le)
    then have nonneg: "0 \<le> snd (so ! m) + delta" unfolding delta_def by simp
    have "map snd fixed = (map snd so)[m := snd (so ! m) + delta]"
      unfolding fixed_def using False nonneg by (simp add: map_update)
    then have "sum_list (map snd fixed) = sum_list (map snd so) - map snd so ! m + (snd (so ! m) + delta)"
      using m by (simp add: sum_list_update_int)
    then show ?thesis using m unfolding delta_def by simp
  qed
  have "fixed = zip (map fst fixed) (map snd fixed)" by (simp add: zip_map_fst_snd)
  then have "tmp b = zip [wtb, h9_side, h9_28, ops_hand, ops_site, last7, opp] (map snd fixed)
                     @ [(h2h, absH2H b)]"
    unfolding tmp fixed_keys keys by simp
  moreover have "length (map snd fixed) = 7"
    using arg_cong [OF fixed_keys, of length] len by simp
  ultimately show ?thesis using fixed_sum by blast
qed

lemma tmp_keys: "map fst (tmp b) = [wtb, h9_side, h9_28, ops_hand, ops_site, last7, opp, h2h]"
proof -
  from tmp_structure [of b] obtain pts where
    t: "tmp b = zip [wtb, h9_side, h9_28, ops_hand, ops_site, last7, opp] pts @ [(h2h, absH2H b)]"
    and l: "length pts = 7" by blast
  from l show ?thesis unfolding t by simp
qed




section \<open>Properties of the composite score\<close>



text \<open>
  C10: for every signal bundle the opportunity contribution is at least 0.025, so the sum
  of the seven contributions other than head-to-head is positive and the breakdown is never
  the single entry that gives the whole score to head-to-head: it always has its eight
  entries.
\<close>

theorem opportunity_floor:
  "0.025 \<le> oppShare b \<and> map_of (comp b) opp = Some (Fin (oppShare b))
   \<and> 0 < denomOthers b
   \<and> map fst (tmp b) = [wtb, h9_side, h9_28, ops_hand, ops_site, last7, opp, h2h]"
  using oppShare_range [of b] denomOthers_pos [of b] tmp_keys [of b]
  by (simp add: comp_def)

section \<open>The scores of the two sample hitters\<close>

lemma wtbPAConfidence_500: "wtbPAConfidence (Num (Fin 500)) = 1"
  by (simp add: wtbPAConfidence_def WTB_PA_MIN_def WTB_PA_MAX_def WTB_PA_FLOOR_def clampR_def)

lemma normOPS_samples: "normOPS Null = Fin (1 / 2)" "normOPS (Num (Fin (21 / 20))) = Fin 1"
  by (simp_all add: normOPS_def clamp_def)

lemma normWTB_samples:
  "normWTB (Num (Fin (223 / 1000))) = 1 / 2" "normWTB (Num (Fin (19 / 100))) = 0"
  by (simp_all add: normWTB_def Let_def)

lemma oppShare_samples: "oppShare steadyHitter = 79 / 2360" "oppShare hotHitter = 79 / 2360"
  by (simp_all add: oppShare_def projPA_def projectedPAFor_def PROJECTED_PA_TABLE_def
      steadyHitter_def hotHitter_def clampR_def)

lemma w_resolved_steady:
  "w_resolved steadyHitter h9_side = 3 / 50" "w_resolved steadyHitter h9_28 = 3 / 100"
  "w_resolved steadyHitter ops_hand = 9 / 40" "w_resolved steadyHitter ops_site = 3 / 50"
  "w_resolved steadyHitter last7 = 3 / 40"
  by (simp_all add: scaleShrink_samples w_last7_dyn_samples)

lemma w_resolved_hot:
  "w_resolved hotHitter h9_side = 9 / 175" "w_resolved hotHitter h9_28 = 9 / 350"
  "w_resolved hotHitter ops_hand = 27 / 140" "w_resolved hotHitter ops_site = 9 / 175"
  "w_resolved hotHitter last7 = 1 / 10"
  by (simp_all add: scaleShrink_samples w_last7_dyn_samples)

lemma bases_steady:
  "bases steadyHitter = [3 / 20, 3 / 100, 3 / 200, 9 / 80, 3 / 100, 3 / 80, 79 / 2360]"
  unfolding bases_eq w_resolved_steady oppShare_samples
  by (simp add: steadyHitter_def normWTB_samples normH9_def normOPS_samples wtbPAConfidence_500)

lemma bases_hot:
  "bases hotHitter = [0, 9 / 350, 9 / 700, 27 / 140, 9 / 175, 1 / 10, 79 / 2360]"
  unfolding bases_eq w_resolved_hot oppShare_samples
  by (simp add: hotHitter_def normWTB_samples normH9_def normOPS_samples wtbPAConfidence_500)

lemma scaledScore_samples: "scaledScore steadyHitter = 61" "scaledScore hotHitter = 62"
  unfolding scaledScore_eq scoreRaw_eq denomOthers_eq bases_steady bases_hot w_h2h_dyn_samples
  by (simp_all add: jsround_def)

section \<open>Order of the ranked lists\<close>

lemma sorted_neg_score: "sorted (map (\<lambda>r. - score r) rs) \<Longrightarrow> scoreDescending rs"
  by (induction rs rule: scoreDescending.induct) simp_all

lemma sorted_neg_wtb: "sorted (map (\<lambda>h. - wtbSortKey h) hs) \<Longrightarrow> wtbDescending hs"
  by (induction hs rule: wtbDescending.induct) simp_all

lemma rankHitters_descending: "scoreDescending (rankHitters vsRows)"
  unfolding rankHitters_def by (rule sorted_neg_score) (rule sorted_sort_key)

lemma sortedHitters_descending: "wtbDescending (sortedHitters perProbable)"
  unfolding sortedHitters_def by (rule sorted_neg_wtb) (rule sorted_sort_key)

subsection \<open>The two sample hitters in one game\<close>

lemma analyzeHitter_samples:
  "score (analyzeHitter steadyHitter) = 61" "score (analyzeHitter hotHitter) = 62"
  "wtb_percent (analyzeHitter steadyHitter) = Num (Fin (223 / 1000))"
  "wtb_percent (analyzeHitter hotHitter) = Num (Fin (19 / 100))"
  "season_pa_out (analyzeHitter steadyHitter) = Num (Fin 500)"
  "season_pa_out (analyzeHitter hotHitter) = Num (Fin 500)"
  "eligible (analyzeHitter steadyHitter)" "eligible (analyzeHitter hotHitter)"
proof -
  show "score (analyzeHitter steadyHitter) = 61" "score (analyzeHitter hotHitter) = 62"
    by (simp_all add: analyzeHitter_def scaledScore_samples)
qed (simp_all add: analyzeHitter_def eligible_def steadyHitter_def hotHitter_def)

lemma wtbSortKey_samples:
  "wtbSortKey (analyzeHitter steadyHitter) = 223 / 1000"
  "wtbSortKey (analyzeHitter hotHitter) = 19 / 100"
  by (simp_all add: wtbSortKey_def analyzeHitter_samples)

lemma rankHitters_samples:
  "rankHitters [steadyHitter, hotHitter] = [analyzeHitter hotHitter, analyzeHitter steadyHitter]"
  by (simp add: rankHitters_def analyzeHitter_samples)

lemma sortedHitters_samples:
  "sortedHitters [\<lparr> gamePk = 777001, game_hitters = rankHitters [steadyHitter, hotHitter] \<rparr>]
   = [analyzeHitter steadyHitter, analyzeHitter hotHitter]"
  by (simp add: sortedHitters_def allHitters_def rankHitters_samples analyzeHitter_samples
      wtbSortKey_samples)

text \<open>
  C5, as stated: the hitters of the combined output are ordered by descending score. One
  game with the two sample hitters: the game's own list has the second hitter (score 62,
  hit rate 0.190) before the first (score 61, hit rate 0.223); the combined output has them
  in the opposite order, the score 61 before the score 62.
\<close>

theorem combined_output_order_counterexample:
  "\<not> scoreDescending
        (hitters (out ''2025-06-01'' 1
           [\<lparr> gamePk = 777001, game_hitters = rankHitters [steadyHitter, hotHitter] \<rparr>]))"
  by (simp add: out_def sortedHitters_samples analyzeHitter_samples)

text \<open>
  C5, amended: the hitters of the combined output are ordered by descending
  \<open>wtb_percent\<close>, a value that is not finite counting as -1; it is the hitters list of each
  single game that is ordered by descending score.
\<close>

theorem combined_output_order:
  "wtbDescending (hitters (out dateStr games perProbable))
   \<and> hitterCount (out dateStr games perProbable) = length (hitters (out dateStr games perProbable))
   \<and> scoreDescending (rankHitters vsRows)"
  using sortedHitters_descending [of perProbable] rankHitters_descending [of vsRows]
  by (simp add: out_def)

section \<open>Lineup-slot projector: the sample observations\<close>

lemma ordersOfPlayer_sample:
  "counts (ordersOfPlayer sampleObservations) = [(1, 2), (2, 2), (3, 1)]"
  "latestSlot (ordersOfPlayer sampleObservations) = Some 3"
  by (simp_all add: ordersOfPlayer_def sampleObservations_def recordObservation_def Let_def)

lemma ordersOfPlayer_tied:
  "counts (ordersOfPlayer tiedObservations) = [(3, 4), (5, 4)]"
  "latestSlot (ordersOfPlayer tiedObservations) = Some 5"
  by (simp_all add: ordersOfPlayer_def tiedObservations_def recordObservation_def Let_def)

lemma tiedSlots_sample: "tiedSlots [(1, 2), (2, 2), (3, 1)] = [1, 2]"
  by (simp add: tiedSlots_def)

lemma choose_sample: "chooseProjectedOrder [(1, 2), (2, 2), (3, 1)] (Some 3) = Some 1"
  by (simp add: chooseProjectedOrder_def)

lemma choose_tied: "chooseProjectedOrder [(3, 4), (5, 4)] (Some 5) = Some 5"
  by (simp add: chooseProjectedOrder_def)

lemma choose_clear: "chooseProjectedOrder [(2, 5), (4, 2)] latest = Some 2"
  by (simp add: chooseProjectedOrder_def)

lemma lastTiedSlotSeen_sample: "lastTiedSlotSeen sampleObservations = 2"
  unfolding lastTiedSlotSeen_def ordersOfPlayer_sample tiedSlots_sample
  by (simp add: sampleObservations_def)

section \<open>Lineup-slot projector: the choice\<close>

text \<open>
  The state of the loop after it has gone through a non-empty list of entries: the best
  count is the highest count, the best slot has it, and the best slot is either the first
  slot with that count or the latest slot.
\<close>

lemma choose_invariant:
  assumes "cnts \<noteq> []"
  shows "\<exists>s c. foldl (chooseStep latest) (None, - 1) cnts = (Some s, int c)
           \<and> list_all (\<lambda>(s', c'). c' \<le> c) cnts
           \<and> ((\<exists>pre post. cnts = pre @ (s, c) # post \<and> list_all (\<lambda>(s', c'). c' < c) pre)
                \<or> (latest = Some s \<and> (s, c) \<in> set cnts))
           \<and> (\<forall>l. latest = Some l \<and> (l, c) \<in> set cnts \<longrightarrow> s = l)"
  using assms
proof (induction cnts rule: rev_induct)
  case Nil
  then show ?case by simp
next
  case (snoc x xs)
  obtain k n where x: "x = (k, n)" by (cases x)
  show ?case
  proof (cases "xs = []")
    case True
    have "[(k, n)] = [] @ (k, n) # [] \<and> list_all (\<lambda>(s', c'). c' < n) []" by simp
    then have "\<exists>pre post. [(k, n)] = pre @ (k, n) # post \<and> list_all (\<lambda>(s', c'). c' < n) pre"
      by blast
    then show ?thesis unfolding True x by simp
  next
    case False
    from snoc.IH [OF False] obtain s c where
      st: "foldl (chooseStep latest) (None, - 1) xs = (Some s, int c)"
      and mx: "list_all (\<lambda>(s', c'). c' \<le> c) xs"
      and pos: "(\<exists>pre post. xs = pre @ (s, c) # post \<and> list_all (\<lambda>(s', c'). c' < c) pre)
                \<or> (latest = Some s \<and> (s, c) \<in> set xs)"
      and lat: "\<forall>l. latest = Some l \<and> (l, c) \<in> set xs \<longrightarrow> s = l"
      by blast
    consider (higher) "c < n" | (tie) "n = c" "latest = Some k" | (keep) "n \<le> c" "\<not> (n = c \<and> latest = Some k)"
      by fastforce
    then show ?thesis
    proof cases
      case higher
      have all_less: "list_all (\<lambda>(s', c'). c' < n) xs"
        using mx higher by (auto simp: list_all_iff)
      then have "list_all (\<lambda>(s', c'). c' \<le> n) (xs @ [(k, n)])"
        by (auto simp: list_all_iff)
      moreover have "\<exists>pre post. xs @ [(k, n)] = pre @ (k, n) # post \<and> list_all (\<lambda>(s', c'). c' < n) pre"
        using all_less by blast
      moreover have "foldl (chooseStep latest) (None, - 1) (xs @ [(k, n)]) = (Some k, int n)"
        using st higher by simp
      moreover have "\<forall>l. latest = Some l \<and> (l, n) \<in> set (xs @ [(k, n)]) \<longrightarrow> k = l"
        using all_less by (auto simp: list_all_iff)
      ultimately show ?thesis unfolding x by blast
    next
      case tie
      have "list_all (\<lambda>(s', c'). c' \<le> c) (xs @ [(k, n)])"
        using mx tie by simp
      moreover have "foldl (chooseStep latest) (None, - 1) (xs @ [(k, n)]) = (Some k, int c)"
        using st tie by simp
      moreover have "latest = Some k \<and> (k, c) \<in> set (xs @ [(k, n)])"
        using tie by simp
      moreover have "\<forall>l. latest = Some l \<and> (l, c) \<in> set (xs @ [(k, n)]) \<longrightarrow> k = l"
        using tie by simp
      ultimately show ?thesis unfolding x by blast
    next
      case keep
      have "list_all (\<lambda>(s', c'). c' \<le> c) (xs @ [(k, n)])"
        using mx keep by simp
      moreover have "foldl (chooseStep latest) (None, - 1) (xs @ [(k, n)]) = (Some s, int c)"
        using st keep by auto
      moreover have "(\<exists>pre post. xs @ [(k, n)] = pre @ (s, c) # post \<and> list_all (\<lambda>(s', c'). c' < c) pre)
                \<or> (latest = Some s \<and> (s, c) \<in> set (xs @ [(k, n)]))"
        using pos
      proof
        assume "\<exists>pre post. xs = pre @ (s, c) # post \<and> list_all (\<lambda>(s', c'). c' < c) pre"
        then obtain pre post where "xs = pre @ (s, c) # post" "list_all (\<lambda>(s', c'). c' < c) pre"
          by blast
        then have "xs @ [(k, n)] = pre @ (s, c) # (post @ [(k, n)]) \<and> list_all (\<lambda>(s', c'). c' < c) pre"
          by simp
        then show ?thesis by blast
      next
        assume "latest = Some s \<and> (s, c) \<in> set xs"
        then show ?thesis by simp
      qed
      moreover have "\<forall>l. latest = Some l \<and> (l, c) \<in> set (xs @ [(k, n)]) \<longrightarrow> s = l"
        using lat keep by auto
      ultimately show ?thesis unfolding x by blast
    qed
  qed
qed


lemma chooseProjectedOrder_Nil: "chooseProjectedOrder [] latest = None"
  by (simp add: chooseProjectedOrder_def)

lemma chooseProjectedOrder_mode:
  assumes "cnts \<noteq> []"
  shows "\<exists>s c. chooseProjectedOrder cnts latest = Some s \<and> (s, c) \<in> set cnts
           \<and> list_all (\<lambda>(s', c'). c' \<le> c) cnts"
proof -
  from choose_invariant [OF assms, of latest] obtain s c where
    st: "foldl (chooseStep latest) (None, - 1) cnts = (Some s, int c)"
    and mx: "list_all (\<lambda>(s', c'). c' \<le> c) cnts"
    and pos: "(\<exists>pre post. cnts = pre @ (s, c) # post \<and> list_all (\<lambda>(s', c'). c' < c) pre)
                \<or> (latest = Some s \<and> (s, c) \<in> set cnts)"
    by blast
  from pos have "(s, c) \<in> set cnts" by auto
  with st mx show ?thesis unfolding chooseProjectedOrder_def by auto
qed

lemma chooseProjectedOrder_latest:
  assumes "(l, c) \<in> set cnts" and "list_all (\<lambda>(s', c'). c' \<le> c) cnts"
  shows "chooseProjectedOrder cnts (Some l) = Some l"
proof -
  from assms(1) have ne: "cnts \<noteq> []" by auto
  from choose_invariant [OF ne, of "Some l"] obtain s c0 where
    st: "foldl (chooseStep (Some l)) (None, - 1) cnts = (Some s, int c0)"
    and mx: "list_all (\<lambda>(s', c'). c' \<le> c0) cnts"
    and pos: "(\<exists>pre post. cnts = pre @ (s, c0) # post \<and> list_all (\<lambda>(s', c'). c' < c0) pre)
                \<or> (Some l = Some s \<and> (s, c0) \<in> set cnts)"
    and lat: "\<forall>l'. Some l = Some l' \<and> (l', c0) \<in> set cnts \<longrightarrow> s = l'"
    by blast
  from pos have "(s, c0) \<in> set cnts" by auto
  with assms(2) have "c0 \<le> c" by (auto simp: list_all_iff)
  moreover from assms(1) mx have "c \<le> c0" by (auto simp: list_all_iff)
  ultimately have "c0 = c" by simp
  with lat assms(1) have "s = l" by simp
  with st show ?thesis unfolding chooseProjectedOrder_def by simp
qed

lemma tiedSlots_first:
  assumes "cnts = pre @ (s, c) # post" and "list_all (\<lambda>(s', c'). c' < c) pre"
    and "list_all (\<lambda>(s', c'). c' \<le> c) cnts"
  shows "hd (tiedSlots cnts) = s"
proof -
  have "filter (\<lambda>(s, c). list_all (\<lambda>(s', c'). c' \<le> c) cnts) pre = []"
  proof -
    have "\<not> list_all (\<lambda>(s', c'). c' \<le> c1) cnts" if "(s1, c1) \<in> set pre" for s1 c1
    proof -
      from that assms(2) have "c1 < c" by (auto simp: list_all_iff)
      moreover have "(s, c) \<in> set cnts" unfolding assms(1) by simp
      ultimately show ?thesis by (force simp: list_all_iff)
    qed
    then show ?thesis by (auto simp: filter_empty_conv)
  qed
  then show ?thesis
    unfolding tiedSlots_def using assms(3) by (simp add: assms(1))
qed

lemma chooseProjectedOrder_first_tied:
  assumes "cnts \<noteq> []" and "\<forall>l. latest = Some l \<longrightarrow> l \<notin> set (tiedSlots cnts)"
  shows "chooseProjectedOrder cnts latest = Some (hd (tiedSlots cnts))"
proof -
  from choose_invariant [OF assms(1), of latest] obtain s c where
    st: "foldl (chooseStep latest) (None, - 1) cnts = (Some s, int c)"
    and mx: "list_all (\<lambda>(s', c'). c' \<le> c) cnts"
    and pos: "(\<exists>pre post. cnts = pre @ (s, c) # post \<and> list_all (\<lambda>(s', c'). c' < c) pre)
                \<or> (latest = Some s \<and> (s, c) \<in> set cnts)"
    by blast
  have "\<not> (latest = Some s \<and> (s, c) \<in> set cnts)"
  proof
    assume a: "latest = Some s \<and> (s, c) \<in> set cnts"
    with mx have "s \<in> set (tiedSlots cnts)"
      unfolding tiedSlots_def by (force simp: image_iff)
    with assms(2) a show False by simp
  qed
  with pos obtain pre post where "cnts = pre @ (s, c) # post" "list_all (\<lambda>(s', c'). c' < c) pre"
    by blast
  from tiedSlots_first [OF this mx] st show ?thesis
    unfolding chooseProjectedOrder_def by simp
qed

section \<open>Lineup-slot projector: the counts of a player\<close>

lemma countsIncr_keys: "fst ` set (countsIncr cs bo) = insert bo (fst ` set cs)"
  by (induction cs bo rule: countsIncr.induct) auto

lemma countsIncr_sorted:
  "sorted_wrt (<) (map fst cs) \<Longrightarrow> sorted_wrt (<) (map fst (countsIncr cs bo))"
proof (induction cs bo rule: countsIncr.induct)
  case (1 bo)
  show ?case by simp
next
  case (2 k c rest bo)
  show ?case
  proof (cases "bo = k \<or> bo < k")
    case True
    with "2.prems" show ?thesis by auto
  next
    case False
    then have gt: "k < bo" and ne: "bo \<noteq> k" and nl: "\<not> bo < k" by simp_all
    from "2.prems" have rest: "sorted_wrt (<) (map fst rest)" and above: "\<forall>x\<in>set rest. k < fst x"
      by simp_all
    from "2.IH" [OF ne nl rest] have "sorted_wrt (<) (map fst (countsIncr rest bo))" .
    moreover have "\<forall>x\<in>set (countsIncr rest bo). k < fst x"
    proof
      fix x assume "x \<in> set (countsIncr rest bo)"
      then have "fst x \<in> insert bo (fst ` set rest)"
        using countsIncr_keys [of rest bo] by (metis imageI)
      with above gt show "k < fst x" by auto
    qed
    ultimately show ?thesis using ne nl by simp
  qed
qed

lemma countsIncr_nonempty: "countsIncr cs bo \<noteq> []"
  by (cases cs) (auto split: if_splits)

lemma counts_recordObservation:
  "counts (recordObservation entry obs) = countsIncr (counts entry) (snd obs)"
  by (simp add: recordObservation_def Let_def)

lemma counts_foldl_sorted:
  "sorted_wrt (<) (map fst (counts entry)) \<Longrightarrow>
   sorted_wrt (<) (map fst (counts (foldl recordObservation entry observations)))"
  by (induction observations arbitrary: entry)
     (simp_all add: counts_recordObservation countsIncr_sorted)

lemma counts_foldl_nonempty:
  "observations \<noteq> [] \<or> counts entry \<noteq> [] \<Longrightarrow>
   counts (foldl recordObservation entry observations) \<noteq> []"
  by (induction observations arbitrary: entry)
     (simp_all add: counts_recordObservation countsIncr_nonempty)

lemma ordersOfPlayer_sorted: "sorted_wrt (<) (map fst (counts (ordersOfPlayer observations)))"
  unfolding ordersOfPlayer_def by (rule counts_foldl_sorted) simp

lemma ordersOfPlayer_nonempty:
  "observations \<noteq> [] \<Longrightarrow> counts (ordersOfPlayer observations) \<noteq> []"
  unfolding ordersOfPlayer_def by (rule counts_foldl_nonempty) simp

lemma tiedSlots_sorted:
  "sorted_wrt (<) (map fst cnts) \<Longrightarrow> sorted_wrt (<) (tiedSlots cnts)"
  unfolding tiedSlots_def sorted_wrt_map by (rule sorted_wrt_filter)

lemma hd_least_of_sorted:
  fixes xs :: "nat list"
  assumes "sorted_wrt (<) xs"
  shows "list_all (\<lambda>t. hd xs \<le> t) xs"
  using assms by (cases xs) (auto simp: list_all_iff less_imp_le)

section \<open>Properties of the lineup-slot projector\<close>

lemma projectSlot_tied: "projectSlot tiedObservations = Some 5"
  unfolding projectSlot_def Let_def ordersOfPlayer_tied by (rule choose_tied)

lemma projectSlot_sample: "projectSlot sampleObservations = Some 1"
  unfolding projectSlot_def Let_def ordersOfPlayer_sample by (rule choose_sample)

section \<open>Lineup-slot projector: the counts are the numbers of games\<close>

lemma countsIncr_map_of:
  assumes "sorted_wrt (<) (map fst cs)"
  shows "map_of (countsIncr cs bo) s
         = (if s = bo then Some (case map_of cs bo of None \<Rightarrow> 1 | Some c \<Rightarrow> c + 1)
            else map_of cs s)"
  using assms
proof (induction cs bo arbitrary: s rule: countsIncr.induct)
  case (1 bo)
  show ?case by simp
next
  case (2 k c rest bo)
  from "2.prems" have rest: "sorted_wrt (<) (map fst rest)" and above: "\<forall>x\<in>set rest. k < fst x"
    by simp_all
  show ?case
  proof (cases "bo = k")
    case True
    then show ?thesis by simp
  next
    case ne: False
    show ?thesis
    proof (cases "bo < k")
      case True
      have "map_of rest bo = None"
      proof (rule ccontr)
        assume "map_of rest bo \<noteq> None"
        then obtain c' where "map_of rest bo = Some c'" by auto
        then have "(bo, c') \<in> set rest" by (rule map_of_SomeD)
        with above have "k < bo" by auto
        with True show False by simp
      qed
      with True ne show ?thesis by simp
    next
      case False
      with ne "2.IH" [OF ne False rest, of s] "2.IH" [OF ne False rest, of bo]
      show ?thesis by auto
    qed
  qed
qed

text \<open>The number of games that an entry list records for a slot.\<close>

lemma counts_foldl_map_of:
  assumes "sorted_wrt (<) (map fst (counts entry))"
  shows "(case map_of (counts (foldl recordObservation entry observations)) s of
            None \<Rightarrow> 0 | Some c \<Rightarrow> c)
         = (case map_of (counts entry) s of None \<Rightarrow> 0 | Some c \<Rightarrow> c)
           + count_list (map snd observations) s"
  using assms
proof (induction observations arbitrary: entry)
  case Nil
  show ?case by simp
next
  case (Cons obs observations)
  have sorted': "sorted_wrt (<) (map fst (counts (recordObservation entry obs)))"
    unfolding counts_recordObservation using Cons.prems by (rule countsIncr_sorted)
  have step: "(case map_of (counts (recordObservation entry obs)) s of None \<Rightarrow> 0 | Some c \<Rightarrow> c)
        = (case map_of (counts entry) s of None \<Rightarrow> 0 | Some c \<Rightarrow> c)
          + (if snd obs = s then 1 else 0)"
    unfolding counts_recordObservation countsIncr_map_of [OF Cons.prems]
    by (auto split: option.splits)
  show ?case
    using Cons.IH [OF sorted'] step by simp
qed

lemma counts_foldl_positive:
  assumes "\<forall>x\<in>set (counts entry). 0 < snd x"
  shows "\<forall>x\<in>set (counts (foldl recordObservation entry observations)). 0 < snd x"
  using assms
proof (induction observations arbitrary: entry)
  case Nil
  then show ?case by simp
next
  case (Cons obs observations)
  have incr: "\<forall>x\<in>set (countsIncr cs bo). 0 < snd x" if "\<forall>x\<in>set cs. 0 < snd x" for cs bo
    using that by (induction cs bo rule: countsIncr.induct) auto
  show ?case
    using Cons.IH [of "recordObservation entry obs"] incr [OF Cons.prems]
    by (simp add: counts_recordObservation)
qed

lemma sorted_wrt_less_distinct:
  fixes xs :: "nat list"
  shows "sorted_wrt (<) xs \<Longrightarrow> distinct xs"
  by (induction xs) auto

text \<open>
  The entries of the counts of a player are exactly the slots of the observations, each
  with the number of observations that have it.
\<close>

lemma ordersOfPlayer_entries:
  "(s, c) \<in> set (counts (ordersOfPlayer observations))
   \<longleftrightarrow> c = count_list (map snd observations) s \<and> 0 < c"
proof -
  let ?cs = "counts (ordersOfPlayer observations)"
  have dist: "distinct (map fst ?cs)"
    by (rule sorted_wrt_less_distinct) (rule ordersOfPlayer_sorted)
  have cnt: "(case map_of ?cs s of None \<Rightarrow> 0 | Some c \<Rightarrow> c) = count_list (map snd observations) s"
    unfolding ordersOfPlayer_def using counts_foldl_map_of [of _ observations s] by simp
  have pos: "\<forall>x\<in>set ?cs. 0 < snd x"
    unfolding ordersOfPlayer_def by (rule counts_foldl_positive) simp
  show ?thesis
  proof
    assume in_cs: "(s, c) \<in> set ?cs"
    with dist have "map_of ?cs s = Some c" by simp
    with cnt pos in_cs show "c = count_list (map snd observations) s \<and> 0 < c" by auto
  next
    assume "c = count_list (map snd observations) s \<and> 0 < c"
    with cnt have "map_of ?cs s = Some c" by (auto split: option.splits)
    then show "(s, c) \<in> set ?cs" by (rule map_of_SomeD)
  qed
qed

text \<open>With the games in chronological order the latest slot is that of the last game.\<close>

lemma latest_foldl:
  assumes "sorted (map fst observations)" "observations \<noteq> []"
    and "\<forall>d. latestGameDate entry = Some d \<longrightarrow> (\<forall>x\<in>set observations. d \<le> fst x)"
  shows "latestSlot (foldl recordObservation entry observations) = Some (snd (last observations))"
  using assms
proof (induction observations arbitrary: entry)
  case Nil
  then show ?case by simp
next
  case (Cons obs observations)
  have upd: "latestGameDate (recordObservation entry obs) = Some (fst obs)
             \<and> latestSlot (recordObservation entry obs) = Some (snd obs)"
    using Cons.prems(3) by (auto simp: recordObservation_def Let_def split: option.splits)
  show ?case
  proof (cases "observations = []")
    case True
    with upd show ?thesis by simp
  next
    case False
    from Cons.prems(1) have s: "sorted (map fst observations)" and le: "\<forall>x\<in>set observations. fst obs \<le> fst x"
      by simp_all
    from Cons.IH [OF s False, of "recordObservation entry obs"] upd le False
    show ?thesis by simp
  qed
qed

lemma ordersOfPlayer_latest:
  assumes "sorted (map fst observations)" "observations \<noteq> []"
  shows "latestSlot (ordersOfPlayer observations) = Some (snd (last observations))"
  unfolding ordersOfPlayer_def by (rule latest_foldl [OF assms]) simp

lemma foldl_recordObservation_snoc:
  "ordersOfPlayer (observations @ [obs]) = recordObservation (ordersOfPlayer observations) obs"
  by (simp add: ordersOfPlayer_def)

lemma latest_of_observations:
  "observations \<noteq> [] \<Longrightarrow>
     latestGameDate (ordersOfPlayer observations) = Some (fst (mostRecentObservation observations))
     \<and> latestSlot (ordersOfPlayer observations) = Some (snd (mostRecentObservation observations))
     \<and> list_all (\<lambda>x. fst x \<le> fst (mostRecentObservation observations)) observations"
proof (induction observations rule: rev_induct)
  case Nil
  then show ?case by simp
next
  case (snoc obs observations)
  show ?case
  proof (cases "observations = []")
    case True
    then show ?thesis
      by (simp add: ordersOfPlayer_def recordObservation_def mostRecentObservation_def Let_def)
  next
    case False
    let ?m = "mostRecentObservation observations"
    from snoc.IH [OF False] have
      d: "latestGameDate (ordersOfPlayer observations) = Some (fst ?m)"
      and s: "latestSlot (ordersOfPlayer observations) = Some (snd ?m)"
      and mx: "list_all (\<lambda>x. fst x \<le> fst ?m) observations"
      by simp_all
    have m_in: "?m \<in> set observations"
    proof -
      from False have fin: "finite (fst ` set observations)" and ne: "fst ` set observations \<noteq> {}"
        by simp_all
      from Max_in [OF fin ne] obtain o1 where o1: "o1 \<in> set observations"
        and o1_max: "fst o1 = Max (fst ` set observations)" by auto
      have "fst x \<le> fst o1" if "x \<in> set observations" for x
        unfolding o1_max using fin that by (intro Max_ge) simp_all
      then have "list_all (\<lambda>x. fst x \<le> fst o1) observations" by (simp add: list_all_iff)
      with o1 have "o1 \<in> set (filter (\<lambda>obs. list_all (\<lambda>x. fst x \<le> fst obs) observations) observations)"
        by simp
      then have "filter (\<lambda>obs. list_all (\<lambda>x. fst x \<le> fst obs) observations) observations \<noteq> []"
        by (metis empty_iff empty_set)
      then have "?m \<in> set (filter (\<lambda>obs. list_all (\<lambda>x. fst x \<le> fst obs) observations) observations)"
        unfolding mostRecentObservation_def by (rule last_in_set)
      then show ?thesis by simp
    qed
    show ?thesis
    proof (cases "fst ?m \<le> fst obs")
      case True
      have all: "list_all (\<lambda>x. fst x \<le> fst obs) (observations @ [obs])"
        using mx True by (auto simp: list_all_iff)
      then have new: "mostRecentObservation (observations @ [obs]) = obs"
        unfolding mostRecentObservation_def by simp
      show ?thesis
        unfolding foldl_recordObservation_snoc new
        using d s True all by (simp add: recordObservation_def Let_def)
    next
      case less: False
      have not_obs: "\<not> list_all (\<lambda>x. fst x \<le> fst obs) (observations @ [obs])"
        using m_in less by (auto simp: list_all_iff)
      have eqv: "list_all (\<lambda>x. fst x \<le> fst o') (observations @ [obs])
                 \<longleftrightarrow> list_all (\<lambda>x. fst x \<le> fst o') observations" for o'
      proof (cases "list_all (\<lambda>x. fst x \<le> fst o') observations")
        case True
        with m_in have "fst ?m \<le> fst o'" by (simp add: list_all_iff)
        with less have "fst obs \<le> fst o'" by simp
        with True show ?thesis by simp
      next
        case False
        then show ?thesis by simp
      qed
      have same: "filter (\<lambda>o'. list_all (\<lambda>x. fst x \<le> fst o') (observations @ [obs])) (observations @ [obs])
            = filter (\<lambda>o'. list_all (\<lambda>x. fst x \<le> fst o') observations) observations"
        unfolding eqv using not_obs unfolding eqv by simp
      then have new: "mostRecentObservation (observations @ [obs]) = ?m"
        unfolding mostRecentObservation_def by simp
      have nonempty: "fst ?m \<noteq> []"
        using less by auto
      show ?thesis
        unfolding foldl_recordObservation_snoc new
        using d s less mx nonempty by (simp add: recordObservation_def Let_def)
    qed
  qed
qed

lemma occurrences_in_counts:
  "(s, c) \<in> set (counts (ordersOfPlayer observations))
   \<longleftrightarrow> c = occurrences observations s \<and> 0 < c"
  unfolding occurrences_def by (rule ordersOfPlayer_entries)

lemma occurrences_pos_iff: "0 < occurrences observations s \<longleftrightarrow> s \<in> set (map snd observations)"
  unfolding occurrences_def by (simp add: count_list_0_iff zero_less_iff_neq_zero del: neq0_conv)

lemma counts_max_iff:
  "list_all (\<lambda>(s', c'). c' \<le> occurrences observations s) (counts (ordersOfPlayer observations))
   \<longleftrightarrow> (\<forall>t. occurrences observations t \<le> occurrences observations s)"
proof
  assume a: "list_all (\<lambda>(s', c'). c' \<le> occurrences observations s) (counts (ordersOfPlayer observations))"
  show "\<forall>t. occurrences observations t \<le> occurrences observations s"
  proof
    fix t
    show "occurrences observations t \<le> occurrences observations s"
    proof (cases "0 < occurrences observations t")
      case True
      then have "(t, occurrences observations t) \<in> set (counts (ordersOfPlayer observations))"
        by (simp add: occurrences_in_counts)
      with a show ?thesis by (auto simp: list_all_iff)
    next
      case False
      then show ?thesis by simp
    qed
  qed
next
  assume "\<forall>t. occurrences observations t \<le> occurrences observations s"
  then show "list_all (\<lambda>(s', c'). c' \<le> occurrences observations s) (counts (ordersOfPlayer observations))"
    by (auto simp: list_all_iff occurrences_in_counts)
qed

lemma projectSlot_mode:
  assumes "observations \<noteq> []"
  shows "\<exists>s. projectSlot observations = Some s \<and> s \<in> set (map snd observations)
             \<and> (\<forall>t. occurrences observations t \<le> occurrences observations s)"
proof -
  let ?e = "ordersOfPlayer observations"
  have "counts ?e \<noteq> []" using assms by (rule ordersOfPlayer_nonempty)
  from chooseProjectedOrder_mode [OF this, of "latestSlot ?e"] obtain s c where
    r: "chooseProjectedOrder (counts ?e) (latestSlot ?e) = Some s"
    and i: "(s, c) \<in> set (counts ?e)"
    and m: "list_all (\<lambda>(s', c'). c' \<le> c) (counts ?e)"
    by blast
  from i have c: "c = occurrences observations s" and p: "0 < occurrences observations s"
    by (simp_all add: occurrences_in_counts)
  from m have "\<forall>t. occurrences observations t \<le> occurrences observations s"
    unfolding c counts_max_iff .
  with r p show ?thesis
    unfolding projectSlot_def Let_def occurrences_pos_iff by blast
qed

lemma projectSlot_latest:
  assumes "observations \<noteq> []"
    and "list_all (\<lambda>t. occurrences observations t
                        \<le> occurrences observations (snd (mostRecentObservation observations)))
           (map snd observations)"
  shows "projectSlot observations = Some (snd (mostRecentObservation observations))"
proof -
  let ?e = "ordersOfPlayer observations"
  let ?l = "snd (mostRecentObservation observations)"
  from latest_of_observations [OF assms(1)] have l: "latestSlot ?e = Some ?l" by simp
  have "occurrences observations t \<le> occurrences observations ?l" for t
  proof (cases "t \<in> set (map snd observations)")
    case True
    with assms(2) show ?thesis by (auto simp: list_all_iff)
  next
    case False
    then have "\<not> 0 < occurrences observations t" unfolding occurrences_pos_iff .
    then show ?thesis by simp
  qed
  then have all: "\<forall>t. occurrences observations t \<le> occurrences observations ?l" ..
  have "?l \<in> set (map snd observations)"
  proof -
    from assms(1) obtain o1 where "o1 \<in> set observations" by (cases observations) auto
    then have "0 < occurrences observations (snd o1)"
      unfolding occurrences_pos_iff by simp
    with all have "0 < occurrences observations ?l"
      by (metis less_le_trans)
    then show ?thesis unfolding occurrences_pos_iff .
  qed
  then have "0 < occurrences observations ?l" unfolding occurrences_pos_iff .
  then have i: "(?l, occurrences observations ?l) \<in> set (counts ?e)"
    by (simp add: occurrences_in_counts)
  from all have m: "list_all (\<lambda>(s', c'). c' \<le> occurrences observations ?l) (counts ?e)"
    unfolding counts_max_iff .
  show ?thesis
    unfolding projectSlot_def Let_def l by (rule chooseProjectedOrder_latest [OF i m])
qed

lemma ordersOfPlayer_clear:
  "counts (ordersOfPlayer clearObservations) = [(2, 5), (4, 2)]"
  by (simp add: ordersOfPlayer_def clearObservations_def recordObservation_def Let_def)

lemma projectSlot_clear: "projectSlot clearObservations = Some 2"
  unfolding projectSlot_def Let_def ordersOfPlayer_clear by (rule choose_clear)

lemma mostRecentObservation_tied: "mostRecentObservation tiedObservations = (''2025-06-04'', 5)"
  by (simp add: mostRecentObservation_def tiedObservations_def)

lemma occurrences_tied:
  "occurrences tiedObservations 3 = 4" "occurrences tiedObservations 5 = 4"
  by (simp_all add: occurrences_def tiedObservations_def)

text \<open>
  C7: the projector returns a slot with the highest occurrence count, the occurrence count
  of a slot being the number of observations that have it; when the slot of the most recent
  observation has the highest count, tied with others or not, that slot is returned;
  observations with the counts {3:4, 5:4} and latest slot 5 give 5 and observations with
  the counts {2:5, 4:2} give 2; without observations the result is \<open>null\<close>.
\<close>

theorem projected_slot_mode:
  "projectSlot [] = None
   \<and> (observations \<noteq> [] \<longrightarrow>
        (\<exists>s. projectSlot observations = Some s \<and> s \<in> set (map snd observations)
             \<and> (\<forall>t. occurrences observations t \<le> occurrences observations s)))
   \<and> (observations \<noteq> []
        \<and> list_all (\<lambda>t. occurrences observations t
                          \<le> occurrences observations (snd (mostRecentObservation observations)))
            (map snd observations)
        \<longrightarrow> projectSlot observations = Some (snd (mostRecentObservation observations)))
   \<and> counts (ordersOfPlayer tiedObservations) = [(3, 4), (5, 4)]
   \<and> snd (mostRecentObservation tiedObservations) = 5
   \<and> projectSlot tiedObservations = Some 5
   \<and> counts (ordersOfPlayer clearObservations) = [(2, 5), (4, 2)]
   \<and> projectSlot clearObservations = Some 2
   \<and> chooseProjectedOrder [(3, 4), (5, 4)] (Some 5) = Some 5
   \<and> chooseProjectedOrder [(2, 5), (4, 2)] latest = Some 2"
proof (intro conjI impI)
  show "projectSlot [] = None"
    by (simp add: projectSlot_def ordersOfPlayer_def chooseProjectedOrder_Nil)
next
  assume "observations \<noteq> []"
  then show "\<exists>s. projectSlot observations = Some s \<and> s \<in> set (map snd observations)
             \<and> (\<forall>t. occurrences observations t \<le> occurrences observations s)"
    by (rule projectSlot_mode)
next
  assume "observations \<noteq> []
        \<and> list_all (\<lambda>t. occurrences observations t
                          \<le> occurrences observations (snd (mostRecentObservation observations)))
            (map snd observations)"
  then show "projectSlot observations = Some (snd (mostRecentObservation observations))"
    using projectSlot_latest by blast
next
  show "snd (mostRecentObservation tiedObservations) = 5"
    by (simp add: mostRecentObservation_tied)
qed (rule ordersOfPlayer_tied ordersOfPlayer_clear projectSlot_tied projectSlot_clear
       choose_tied choose_clear)+

theorem projected_slot_mode_witness:
  "tiedObservations \<noteq> []
   \<and> list_all (\<lambda>t. occurrences tiedObservations t
                     \<le> occurrences tiedObservations (snd (mostRecentObservation tiedObservations)))
       (map snd tiedObservations)
   \<and> projectSlot tiedObservations = Some (snd (mostRecentObservation tiedObservations))
   \<and> (\<exists>s. projectSlot tiedObservations = Some s \<and> s \<in> set (map snd tiedObservations)
          \<and> (\<forall>t. occurrences tiedObservations t \<le> occurrences tiedObservations s))"
proof -
  have ne: "tiedObservations \<noteq> []" by (simp add: tiedObservations_def)
  have top: "list_all (\<lambda>t. occurrences tiedObservations t
                     \<le> occurrences tiedObservations (snd (mostRecentObservation tiedObservations)))
       (map snd tiedObservations)"
    unfolding mostRecentObservation_tied snd_conv
    by (simp add: tiedObservations_def occurrences_def)
  from projected_slot_mode [of tiedObservations] ne top
  show ?thesis by blast
qed

text \<open>
  C8, as stated: when the slots with the highest count do not include the latest slot, the
  projector returns the tied slot that the chronological sequence of observations shows
  last. In the sample observations the slots 1 and 2 tie at two games, the latest slot is
  3, the tied slot seen last is 2, and the projector returns 1.
\<close>

theorem tie_without_latest_counterexample:
  "latestSlot (ordersOfPlayer sampleObservations)
     \<notin> Some ` set (tiedSlots (counts (ordersOfPlayer sampleObservations)))
   \<and> tiedSlots (counts (ordersOfPlayer sampleObservations)) = [1, 2]
   \<and> lastTiedSlotSeen sampleObservations = 2
   \<and> projectSlot sampleObservations \<noteq> Some (lastTiedSlotSeen sampleObservations)"
  unfolding ordersOfPlayer_sample tiedSlots_sample lastTiedSlotSeen_sample projectSlot_sample
  by simp

text \<open>
  C8, amended: when the slots with the highest count do not include the latest slot, the
  projector returns the tied slot that the enumeration of the counts object yields first;
  the slots being integer keys, that is the smallest tied slot number, whatever the
  chronological order of the observations.
\<close>

theorem tie_without_latest:
  "observations \<noteq> []
   \<and> latestSlot (ordersOfPlayer observations)
       \<notin> Some ` set (tiedSlots (counts (ordersOfPlayer observations)))
   \<longrightarrow> projectSlot observations = Some (hd (tiedSlots (counts (ordersOfPlayer observations))))
       \<and> list_all (\<lambda>t. hd (tiedSlots (counts (ordersOfPlayer observations))) \<le> t)
            (tiedSlots (counts (ordersOfPlayer observations)))"
proof (intro impI, elim conjE)
  assume ne: "observations \<noteq> []"
    and nl: "latestSlot (ordersOfPlayer observations)
               \<notin> Some ` set (tiedSlots (counts (ordersOfPlayer observations)))"
  from nl have "\<forall>l. latestSlot (ordersOfPlayer observations) = Some l \<longrightarrow>
                  l \<notin> set (tiedSlots (counts (ordersOfPlayer observations)))"
    by auto
  from chooseProjectedOrder_first_tied [OF ordersOfPlayer_nonempty [OF ne] this]
  have "projectSlot observations = Some (hd (tiedSlots (counts (ordersOfPlayer observations))))"
    unfolding projectSlot_def Let_def .
  moreover have "list_all (\<lambda>t. hd (tiedSlots (counts (ordersOfPlayer observations))) \<le> t)
            (tiedSlots (counts (ordersOfPlayer observations)))"
    by (rule hd_least_of_sorted) (rule tiedSlots_sorted, rule ordersOfPlayer_sorted)
  ultimately show "projectSlot observations = Some (hd (tiedSlots (counts (ordersOfPlayer observations))))
       \<and> list_all (\<lambda>t. hd (tiedSlots (counts (ordersOfPlayer observations))) \<le> t)
            (tiedSlots (counts (ordersOfPlayer observations)))"
    by simp
qed

theorem tie_without_latest_witness:
  "sampleObservations \<noteq> []
   \<and> latestSlot (ordersOfPlayer sampleObservations)
       \<notin> Some ` set (tiedSlots (counts (ordersOfPlayer sampleObservations)))
   \<and> hd (tiedSlots (counts (ordersOfPlayer sampleObservations))) = 1
   \<and> projectSlot sampleObservations = Some 1"
proof -
  have ne: "sampleObservations \<noteq> []" by (simp add: sampleObservations_def)
  have nl: "latestSlot (ordersOfPlayer sampleObservations)
       \<notin> Some ` set (tiedSlots (counts (ordersOfPlayer sampleObservations)))"
    unfolding ordersOfPlayer_sample tiedSlots_sample by simp
  have first: "hd (tiedSlots (counts (ordersOfPlayer sampleObservations))) = 1"
    unfolding ordersOfPlayer_sample tiedSlots_sample by simp
  from tie_without_latest [of sampleObservations] ne nl
  have "projectSlot sampleObservations
        = Some (hd (tiedSlots (counts (ordersOfPlayer sampleObservations))))"
    by blast
  with ne nl first show ?thesis by simp
qed

section \<open>Head-to-head weight: the rows other than the fourth\<close>

lemma H2H_OPS_BINS_increasing: "sorted_wrt (<) H2H_OPS_BINS"
  by (simp add: H2H_OPS_BINS_def)

lemma H2H_GRID_POINTS_length: "length H2H_GRID_POINTS = 25"
  by (simp add: H2H_GRID_POINTS_def)

lemma H2H_GRID_POINTS_other_rows:
  "list_all (\<lambda>row. sorted row \<and> length row = 12) (take 3 H2H_GRID_POINTS @ drop 4 H2H_GRID_POINTS)"
  by (simp add: H2H_GRID_POINTS_def)

lemma H2H_GRID_POINTS_row_sorted:
  assumes "r < 25" "r \<noteq> 3"
  shows "sorted (H2H_GRID_POINTS ! r) \<and> length (H2H_GRID_POINTS ! r) = 12"
proof -
  have "H2H_GRID_POINTS ! r \<in> set (take 3 H2H_GRID_POINTS @ drop 4 H2H_GRID_POINTS)"
  proof (cases "r < 3")
    case True
    then have "H2H_GRID_POINTS ! r = take 3 H2H_GRID_POINTS ! r" by simp
    moreover have "r < length (take 3 H2H_GRID_POINTS)"
      using True by (simp add: H2H_GRID_POINTS_length)
    ultimately show ?thesis by (metis nth_mem Un_iff set_append)
  next
    case False
    with assms have r: "4 \<le> r" by simp
    then have "H2H_GRID_POINTS ! r = drop 4 H2H_GRID_POINTS ! (r - 4)"
      using assms(1) by (simp add: H2H_GRID_POINTS_length)
    moreover have "r - 4 < length (drop 4 H2H_GRID_POINTS)"
      using assms(1) r by (simp add: H2H_GRID_POINTS_length)
    ultimately show ?thesis by (metis nth_mem Un_iff set_append)
  qed
  with H2H_GRID_POINTS_other_rows show ?thesis by (auto simp: list_all_iff)
qed

text \<open>What the search loop returns when started at \<open>k\<close> with \<open>bins[k] \<le> c \<le> bins[11]\<close>.\<close>

lemma h2hBinLoop_spec:
  assumes "k < 11" "H2H_OPS_BINS ! k \<le> c" "c \<le> H2H_OPS_BINS ! 11"
  shows "k \<le> h2hBinLoop c k \<and> h2hBinLoop c k < 11
         \<and> H2H_OPS_BINS ! h2hBinLoop c k \<le> c \<and> c \<le> H2H_OPS_BINS ! (h2hBinLoop c k + 1)
         \<and> (\<forall>j. k \<le> j \<and> j < h2hBinLoop c k \<longrightarrow> H2H_OPS_BINS ! (j + 1) < c)"
  using assms
proof (induction c k rule: h2hBinLoop.induct)
  case (1 c k)
  note len = H2H_OPS_BINS_nth(1)
  show ?case
  proof (cases "c \<le> H2H_OPS_BINS ! (k + 1)")
    case True
    with "1.prems" have "h2hBinLoop c k = k"
      by (subst h2hBinLoop.simps) (simp add: len)
    with True "1.prems" show ?thesis by simp
  next
    case False
    then have above: "H2H_OPS_BINS ! (k + 1) < c" by simp
    have step: "h2hBinLoop c k = h2hBinLoop c (k + 1)"
      using "1.prems" False by (subst h2hBinLoop.simps) (simp add: len)
    have "k + 1 \<noteq> 11" using above "1.prems"(3) by auto
    with "1.prems"(1) have k1: "k + 1 < 11" by simp
    have cond: "\<not> (c \<ge> H2H_OPS_BINS ! k \<and> c \<le> H2H_OPS_BINS ! (k + 1))" using False by simp
    from "1.IH" [OF _ cond k1 _ "1.prems"(3)] "1.prems"(1) above
    have ih: "k + 1 \<le> h2hBinLoop c (k + 1) \<and> h2hBinLoop c (k + 1) < 11
         \<and> H2H_OPS_BINS ! h2hBinLoop c (k + 1) \<le> c
         \<and> c \<le> H2H_OPS_BINS ! (h2hBinLoop c (k + 1) + 1)
         \<and> (\<forall>j. k + 1 \<le> j \<and> j < h2hBinLoop c (k + 1) \<longrightarrow> H2H_OPS_BINS ! (j + 1) < c)"
      by (simp add: len)
    have "\<forall>j. k \<le> j \<and> j < h2hBinLoop c (k + 1) \<longrightarrow> H2H_OPS_BINS ! (j + 1) < c"
    proof (intro allI impI)
      fix j assume j: "k \<le> j \<and> j < h2hBinLoop c (k + 1)"
      show "H2H_OPS_BINS ! (j + 1) < c"
      proof (cases "j = k")
        case True
        with above show ?thesis by simp
      next
        case False
        with j have "k + 1 \<le> j \<and> j < h2hBinLoop c (k + 1)" by simp
        with ih show ?thesis by blast
      qed
    qed
    with ih show ?thesis unfolding step by simp
  qed
qed

lemma h2hBinLoop_in_range:
  assumes "1 / 5 \<le> c" "c \<le> 2"
  shows "h2hBinLoop c 0 < 11
         \<and> H2H_OPS_BINS ! h2hBinLoop c 0 \<le> c \<and> c \<le> H2H_OPS_BINS ! (h2hBinLoop c 0 + 1)
         \<and> H2H_OPS_BINS ! h2hBinLoop c 0 < H2H_OPS_BINS ! (h2hBinLoop c 0 + 1)
         \<and> (\<forall>j. j < h2hBinLoop c 0 \<longrightarrow> H2H_OPS_BINS ! (j + 1) < c)"
proof -
  have spec: "0 \<le> h2hBinLoop c 0 \<and> h2hBinLoop c 0 < 11
         \<and> H2H_OPS_BINS ! h2hBinLoop c 0 \<le> c \<and> c \<le> H2H_OPS_BINS ! (h2hBinLoop c 0 + 1)
         \<and> (\<forall>j. 0 \<le> j \<and> j < h2hBinLoop c 0 \<longrightarrow> H2H_OPS_BINS ! (j + 1) < c)"
    using assms by (intro h2hBinLoop_spec) (simp_all add: H2H_OPS_BINS_nth)
  then have "h2hBinLoop c 0 + 1 < length H2H_OPS_BINS" by (simp add: H2H_OPS_BINS_nth)
  with sorted_wrt_nth_less [OF H2H_OPS_BINS_increasing, of "h2hBinLoop c 0" "h2hBinLoop c 0 + 1"]
  have "H2H_OPS_BINS ! h2hBinLoop c 0 < H2H_OPS_BINS ! (h2hBinLoop c 0 + 1)" by simp
  with spec show ?thesis by simp
qed

text \<open>The interpolated points on a non-decreasing row do not decrease with the OPS.\<close>

lemma interpolation_mono:
  fixes row :: "real list"
  assumes row: "sorted row" "length row = 12"
    and c: "1 / 5 \<le> c1" "c1 \<le> c2" "c2 \<le> 2"
  shows "row ! h2hBinLoop c1 0
           + (c1 - H2H_OPS_BINS ! h2hBinLoop c1 0)
             / (H2H_OPS_BINS ! (h2hBinLoop c1 0 + 1) - H2H_OPS_BINS ! h2hBinLoop c1 0)
             * (row ! (h2hBinLoop c1 0 + 1) - row ! h2hBinLoop c1 0)
         \<le> row ! h2hBinLoop c2 0
           + (c2 - H2H_OPS_BINS ! h2hBinLoop c2 0)
             / (H2H_OPS_BINS ! (h2hBinLoop c2 0 + 1) - H2H_OPS_BINS ! h2hBinLoop c2 0)
             * (row ! (h2hBinLoop c2 0 + 1) - row ! h2hBinLoop c2 0)"
proof -
  define i1 where "i1 = h2hBinLoop c1 0"
  define i2 where "i2 = h2hBinLoop c2 0"
  define lo1 where "lo1 = H2H_OPS_BINS ! i1"
  define hi1 where "hi1 = H2H_OPS_BINS ! (i1 + 1)"
  define lo2 where "lo2 = H2H_OPS_BINS ! i2"
  define hi2 where "hi2 = H2H_OPS_BINS ! (i2 + 1)"
  define d1 where "d1 = row ! (i1 + 1) - row ! i1"
  define d2 where "d2 = row ! (i2 + 1) - row ! i2"
  have r1: "i1 < 11" "lo1 \<le> c1" "c1 \<le> hi1" "lo1 < hi1"
    and first1: "\<forall>j. j < i1 \<longrightarrow> H2H_OPS_BINS ! (j + 1) < c1"
    using h2hBinLoop_in_range [of c1] c unfolding i1_def lo1_def hi1_def by simp_all
  have r2: "i2 < 11" "lo2 \<le> c2" "c2 \<le> hi2" "lo2 < hi2"
    using h2hBinLoop_in_range [of c2] c unfolding i2_def lo2_def hi2_def by simp_all
  have d1: "0 \<le> d1" unfolding d1_def using sorted_nth_mono [OF row(1), of i1 "i1 + 1"] r1(1) row(2) by simp
  have d2: "0 \<le> d2" unfolding d2_def using sorted_nth_mono [OF row(1), of i2 "i2 + 1"] r2(1) row(2) by simp
  have u1: "0 \<le> (c1 - lo1) / (hi1 - lo1)" "(c1 - lo1) / (hi1 - lo1) \<le> 1" using r1 by simp_all
  have u2: "0 \<le> (c2 - lo2) / (hi2 - lo2)" "(c2 - lo2) / (hi2 - lo2) \<le> 1" using r2 by simp_all
  have le: "i1 \<le> i2"
  proof (rule ccontr)
    assume "\<not> i1 \<le> i2"
    then have "i2 < i1" by simp
    with first1 have "H2H_OPS_BINS ! (i2 + 1) < c1" by blast
    with r2(3) c(2) show False unfolding hi2_def by simp
  qed
  have "row ! i1 + (c1 - lo1) / (hi1 - lo1) * d1 \<le> row ! i2 + (c2 - lo2) / (hi2 - lo2) * d2"
  proof (cases "i1 = i2")
    case True
    then have same: "lo1 = lo2" "hi1 = hi2" "d1 = d2"
      unfolding lo1_def lo2_def hi1_def hi2_def d1_def d2_def by simp_all
    have "(c1 - lo2) / (hi2 - lo2) \<le> (c2 - lo2) / (hi2 - lo2)"
      using c(2) r2(4) by (simp add: divide_right_mono)
    then have "(c1 - lo2) / (hi2 - lo2) * d2 \<le> (c2 - lo2) / (hi2 - lo2) * d2"
      using d2 by (rule mult_right_mono)
    then show ?thesis unfolding same True by simp
  next
    case False
    with le have lt: "i1 + 1 \<le> i2" by simp
    have "(c1 - lo1) / (hi1 - lo1) * d1 \<le> 1 * d1" using u1(2) d1 by (rule mult_right_mono)
    then have "row ! i1 + (c1 - lo1) / (hi1 - lo1) * d1 \<le> row ! (i1 + 1)"
      unfolding d1_def by simp
    also have "\<dots> \<le> row ! i2"
      using sorted_nth_mono [OF row(1) lt] r2(1) row(2) by simp
    also have "\<dots> \<le> row ! i2 + (c2 - lo2) / (hi2 - lo2) * d2"
      using mult_nonneg_nonneg [OF u2(1) d2] by linarith
    finally show ?thesis .
  qed
  then show ?thesis
    unfolding i1_def i2_def lo1_def hi1_def lo2_def hi2_def d1_def d2_def .
qed


lemma clampR_mono: "x \<le> y \<Longrightarrow> clampR x lo hi \<le> clampR y lo hi"
  unfolding clampR_def by (intro min.mono max.mono) simp_all

text \<open>
  For every number of at-bats that does not select the fourth row, the share does not
  decrease when the OPS grows.
\<close>

lemma h2hWeightFromGrid_mono_other_rows:
  fixes ab :: jsval and o1 o2 :: real
  defines "r0 \<equiv> nat \<lfloor>clampR (real_of_int (jsround (case ab of Num (Fin a) \<Rightarrow> a | _ \<Rightarrow> 0))) 1 25 - 1\<rfloor>"
  assumes other: "r0 \<noteq> 3" and le: "o1 \<le> o2"
  shows "h2hWeightFromGrid ab (Num (Fin o1)) \<le> h2hWeightFromGrid ab (Num (Fin o2))"
proof -
  define row where "row = H2H_GRID_POINTS ! r0"
  have "r0 < 25"
  proof -
    have "clampR (real_of_int (jsround (case ab of Num (Fin a) \<Rightarrow> a | _ \<Rightarrow> 0))) 1 25 - 1 \<le> 24"
      using clampR_bounds [of 1 25] by simp
    then have "\<lfloor>clampR (real_of_int (jsround (case ab of Num (Fin a) \<Rightarrow> a | _ \<Rightarrow> 0))) 1 25 - 1\<rfloor> \<le> 24"
      by (simp add: floor_le_iff)
    then show ?thesis unfolding r0_def by arith
  qed
  from H2H_GRID_POINTS_row_sorted [OF this other]
  have row: "sorted row" "length row = 12" unfolding row_def by simp_all
  define c1 where "c1 = clampR o1 (1 / 5) 2"
  define c2 where "c2 = clampR o2 (1 / 5) 2"
  have c: "1 / 5 \<le> c1" "c1 \<le> c2" "c2 \<le> 2"
    unfolding c1_def c2_def using clampR_bounds [of "1 / 5" 2] clampR_mono [OF le] by simp_all
  have c1_range: "1 / 5 \<le> c1" "c1 \<le> 2" and c2_range: "1 / 5 \<le> c2" "c2 \<le> 2"
    using c by simp_all
  have eval: "h2hWeightFromGrid ab (Num (Fin x))
      = clampR ((row ! h2hBinLoop cx 0
           + (cx - H2H_OPS_BINS ! h2hBinLoop cx 0)
             / (H2H_OPS_BINS ! (h2hBinLoop cx 0 + 1) - H2H_OPS_BINS ! h2hBinLoop cx 0)
             * (row ! (h2hBinLoop cx 0 + 1) - row ! h2hBinLoop cx 0)) / 100) 0 0.30"
    if cx: "cx = clampR x (1 / 5) 2" and range: "1 / 5 \<le> cx" "cx \<le> 2" for x cx
  proof -
    from h2hBinLoop_in_range [OF range]
    have i: "h2hBinLoop cx 0 < 11"
      and lt: "H2H_OPS_BINS ! h2hBinLoop cx 0 < H2H_OPS_BINS ! (h2hBinLoop cx 0 + 1)"
      by simp_all
    from i have mins: "min (h2hBinLoop cx 0) 10 = h2hBinLoop cx 0" by simp
    from lt have lt': "H2H_OPS_BINS ! h2hBinLoop cx 0 < H2H_OPS_BINS ! Suc (h2hBinLoop cx 0)"
      by simp
    show ?thesis
      unfolding h2hWeightFromGrid_def
      apply (simp only: jsval.case jsnum.case Let_def)
      apply (fold r0_def)
      apply (fold row_def)
      apply (simp add: H2H_OPS_BINS_nth row(2) cx [symmetric] mins lt')
      done
  qed
  show ?thesis
    unfolding eval [OF c1_def c1_range] eval [OF c2_def c2_range]
    by (intro clampR_mono divide_right_mono interpolation_mono row c) simp
qed


text \<open>
  C3: for a fixed number of at-bats the head-to-head share does not decrease when the OPS
  grows, and it lies in [0, 0.30]. The bound holds for all inputs
  (\<open>h2hWeightFromGrid_bounds\<close>), and the share is non-decreasing in the OPS for every
  number of at-bats that selects another row than the fourth
  (\<open>h2hWeightFromGrid_mono_other_rows\<close>). The row for four at-bats reads 20 at OPS 0.90
  and 19 at OPS 0.95, the only step down in the table, so the share drops from 0.20 to 0.19
  there.
\<close>

theorem h2hWeightFromGrid_row4_drop:
  "h2hWeightFromGrid (Num (Fin 4)) (Num (Fin 0.9)) = 0.20
   \<and> h2hWeightFromGrid (Num (Fin 4)) (Num (Fin 0.95)) = 0.19
   \<and> \<not> (h2hWeightFromGrid (Num (Fin 4)) (Num (Fin 0.9))
          \<le> h2hWeightFromGrid (Num (Fin 4)) (Num (Fin 0.95)))"
  unfolding h2hWeightFromGrid_4_090 h2hWeightFromGrid_4_095 by simp

end
